theory Spec2Isabelle
  imports Complex_Main
begin

section \<open>Conventions of the embedding\<close>

text \<open>
  The C sources \<^verbatim>\<open>purify_image.c\<close> and \<^verbatim>\<open>purify_measurement_gauss.c\<close> are embedded
  function by function.  A C \<^verbatim>\<open>int\<close> is a HOL \<open>int\<close>; where the C standard leaves an
  operation undefined (a conversion from \<^verbatim>\<open>double\<close> that does not fit, an arithmetic
  overflow of an \<^verbatim>\<open>int\<close> computed by \<^verbatim>\<open>purify_image.c\<close>, by
  \<^verbatim>\<open>purify_measurement_init_cft\<close> or by \<^verbatim>\<open>purify_measurement_pow_meth\<close>, an access outside an
  array, a division of an \<^verbatim>\<open>int\<close> by zero) the model returns an error value instead of a
  result.  In the measurement operators the sizes are those of the arrays at hand, and
  every index is checked against the extent of its array.  A C \<^verbatim>\<open>double\<close> is a HOL
  \<open>real\<close> and a \<^verbatim>\<open>complex double\<close> a HOL \<open>complex\<close>: arithmetic is exact, rounding is not
  modelled.  A division of doubles by zero does not trap; where the source can divide
  by zero (the increments of \<^verbatim>\<open>purify_measurement_init_cft\<close>, the norms of
  \<^verbatim>\<open>purify_measurement_pow_meth\<close>) the model follows the infinity or the NaN, as said
  there.  Arrays are lists; an output parameter is the function's result.  Memory
  allocation is taken to succeed.
\<close>

datatype error =
    Purify_error_generic string  \<comment> \<open>\<^verbatim>\<open>PURIFY_ERROR_GENERIC(comment)\<close>: fatal\<close>
  | Index_out_of_bounds          \<comment> \<open>an array is read or written outside its extent\<close>
  | Int_overflow                 \<comment> \<open>signed arithmetic leaves the range of \<^verbatim>\<open>int\<close>\<close>
  | Conversion_out_of_range      \<comment> \<open>a \<^verbatim>\<open>double\<close> is converted to an \<^verbatim>\<open>int\<close> that cannot hold it\<close>
  | Division_by_zero             \<comment> \<open>an integer is divided by zero\<close>

definition INT_MAX :: int where
  "INT_MAX = 2147483647"

definition INT_MIN :: int where
  "INT_MIN = - 2147483648"

definition c_int_ok :: "int \<Rightarrow> bool" where
  "c_int_ok k = (INT_MIN \<le> k \<and> k \<le> INT_MAX)"

text \<open>Integer division of C truncates towards zero.\<close>

definition c_div :: "int \<Rightarrow> int \<Rightarrow> int" where
  "c_div a b = (if (a < 0) = (b < 0) then \<bar>a\<bar> div \<bar>b\<bar> else - (\<bar>a\<bar> div \<bar>b\<bar>))"

text \<open>The conversion \<^verbatim>\<open>(int) x\<close> of a \<^verbatim>\<open>double\<close>: the fractional part is discarded; the
  behaviour is undefined when the integral part is not representable.\<close>

definition double_to_int :: "real \<Rightarrow> error + int" where
  "double_to_int x =
     (let t = (if 0 \<le> x then \<lfloor>x\<rfloor> else \<lceil>x\<rceil>)
      in if c_int_ok t then Inr t else Inl Conversion_out_of_range)"

section \<open>Checked steps\<close>

text \<open>Sequencing of steps that may fail, and the checked primitives: a value stored in
  an \<^verbatim>\<open>int\<close>, an array read \<^verbatim>\<open>a[k]\<close> and an array write \<^verbatim>\<open>a[k] = x\<close>.\<close>

definition bindE :: "error + 'a \<Rightarrow> ('a \<Rightarrow> error + 'b) \<Rightarrow> error + 'b" where
  "bindE m f = (case m of Inl e \<Rightarrow> Inl e | Inr a \<Rightarrow> f a)"

primrec mapE :: "('a \<Rightarrow> error + 'b) \<Rightarrow> 'a list \<Rightarrow> error + 'b list" where
  "mapE f [] = Inr []"
| "mapE f (a # as) = bindE (f a) (\<lambda>b. bindE (mapE f as) (\<lambda>bs. Inr (b # bs)))"

definition int_chk :: "int \<Rightarrow> error + int" where
  "int_chk k = (if c_int_ok k then Inr k else Inl Int_overflow)"

definition load :: "'a list \<Rightarrow> int \<Rightarrow> error + 'a" where
  "load xs k = (if 0 \<le> k \<and> k < int (length xs) then Inr (xs ! nat k) else Inl Index_out_of_bounds)"

definition store :: "'a list \<Rightarrow> int \<Rightarrow> 'a \<Rightarrow> error + 'a list" where
  "store xs k x = (if 0 \<le> k \<and> k < int (length xs) then Inr (xs[nat k := x]) else Inl Index_out_of_bounds)"

section \<open>Images (\<^verbatim>\<open>purify_image.h\<close>, \<^verbatim>\<open>purify_image.c\<close>)\<close>

record purify_image =
  fov_x :: real
  fov_y :: real
  nx :: int
  ny :: int
  pix :: "real list"

text \<open>\<^verbatim>\<open>purify_image_ixiy2ind\<close>, lines 25 to 33 of \<^verbatim>\<open>purify_image.c\<close>.  The guard
  compares \<^verbatim>\<open>ix\<close> with both dimensions, as the source does.  The macro
  \<^verbatim>\<open>PURIFY_ERROR_GENERIC\<close> is declared in a header that is not part of the sources at
  hand; it is the fatal error of the specification and ends the call.\<close>

definition purify_image_ixiy2ind :: "int \<Rightarrow> int \<Rightarrow> purify_image \<Rightarrow> error + int" where
  "purify_image_ixiy2ind ix iy img =
     (if ix \<ge> nx img \<or> ix \<ge> ny img
      then Inl (Purify_error_generic ''Image index too large'')
      else bindE (int_chk (ix * ny img)) (\<lambda>p. int_chk (p + iy)))"

text \<open>\<^verbatim>\<open>purify_image_ind2iuiv\<close>, lines 46 to 55: the result is the pair \<open>(ix, iy)\<close>.  The
  product of the guard, the quotient (\<open>INT_MIN / -1\<close> is not a value of type \<^verbatim>\<open>int\<close>), the
  product \<open>ix * ny\<close> and the difference are computed on \<^verbatim>\<open>int\<close>.\<close>

definition purify_image_ind2iuiv :: "int \<Rightarrow> purify_image \<Rightarrow> error + (int \<times> int)" where
  "purify_image_ind2iuiv ind img =
     bindE (int_chk (nx img * ny img)) (\<lambda>n.
     if ind \<ge> n then Inl (Purify_error_generic ''Image index too large'')
     else if ny img = 0 then Inl Division_by_zero
     else bindE (int_chk (c_div ind (ny img))) (\<lambda>ix.
          bindE (int_chk (ix * ny img)) (\<lambda>p.
          bindE (int_chk (ind - p)) (\<lambda>iy. Inr (ix, iy)))))"


section \<open>Sparse matrices and measurement parameters\<close>

text \<open>The structures \<^verbatim>\<open>purify_sparsemat_row\<close> and \<^verbatim>\<open>purify_measurement_cparam\<close> are
  declared in headers that are not part of the sources at hand.  The records have the
  fields that \<^verbatim>\<open>purify_measurement_gauss.c\<close> reads and writes, with the types it uses them
  at; the flag \<^verbatim>\<open>real\<close> is named \<open>real_flag\<close> and the null pointer \<^verbatim>\<open>cvals\<close> is \<open>None\<close>.\<close>

record purify_sparsemat_row =
  nrows :: int
  ncols :: int
  nvals :: int
  real_flag :: int
  cvals :: "complex list option"
  vals :: "real list"
  colind :: "int list"
  rowptr :: "int list"

record purify_measurement_cparam =
  nmeas :: int
  nx1 :: int
  ny1 :: int
  ofx :: int
  ofy :: int
  umax :: real
  vmax :: real

section \<open>The interpolation matrix (\<^verbatim>\<open>purify_measurement_init_cft\<close>)\<close>

text \<open>Lines 255 to 265: the constants of the Gaussian kernel and its table
  \<^verbatim>\<open>convfn[NGCF]\<close>.  The dump of the table to the file \<^verbatim>\<open>convdump.dat\<close> has no effect on
  the results and is left out.\<close>

definition NGCF :: int where
  "NGCF = 301"

definition nmask :: int where
  "nmask = 2"

definition hwhm :: real where
  "hwhm = 7 / 10"

definition tgtocg :: real where
  "tgtocg = of_int (NGCF - 1) / (of_int nmask + 1 / 2)"

definition cghwhm :: real where
  "cghwhm = tgtocg * hwhm"

definition recvar :: real where
  "recvar = ln 2 / cghwhm / cghwhm"

definition convfn_at :: "nat \<Rightarrow> real" where
  "convfn_at i = exp (- recvar * of_nat i * of_nat i)"

definition convfn :: "real list" where
  "convfn = map convfn_at [0..<nat NGCF]"

text \<open>Lines 317 and 319: the table index \<^verbatim>\<open>(int) (tgtocg * fabs(i - frc) + 0.5)\<close> and the
  read \<^verbatim>\<open>convfn[...]\<close> at it.\<close>

definition convfn_index :: "int \<Rightarrow> real \<Rightarrow> error + int" where
  "convfn_index i frc = double_to_int (tgtocg * \<bar>of_int i - frc\<bar> + 1 / 2)"

definition convfn_lookup :: "int \<Rightarrow> real \<Rightarrow> error + real" where
  "convfn_lookup i frc = bindE (convfn_index i frc) (load convfn)"

text \<open>Lines 321 to 326: the wrap-around of one coordinate, each correction applied at
  most once.\<close>

definition cft_wrap :: "int \<Rightarrow> int \<Rightarrow> error + int" where
  "cft_wrap n2 i =
     bindE (if i < 0 then int_chk (i + n2) else Inr i) (\<lambda>i2.
       if i2 \<ge> n2 then int_chk (i2 - n2) else Inr i2)"

text \<open>Line 330: the column index \<^verbatim>\<open>iv2 * nx2 + iu2\<close>.\<close>

definition cft_colind :: "int \<Rightarrow> int \<Rightarrow> int \<Rightarrow> error + int" where
  "cft_colind nx2 iu2 iv2 = bindE (int_chk (iv2 * nx2)) (\<lambda>p. int_chk (p + iu2))"

text \<open>Lines 318 to 333: the body of the loop over \<^verbatim>\<open>iu\<close>, which yields the value and
  the column index stored at \<^verbatim>\<open>row + counter\<close>.\<close>

definition cft_entry :: "int \<Rightarrow> int \<Rightarrow> real \<Rightarrow> real \<Rightarrow> int \<Rightarrow> int \<Rightarrow> error + (real \<times> int)" where
  "cft_entry nx2 ny2 ufrc fv iv iu =
     bindE (convfn_lookup iu ufrc) (\<lambda>fu.
     bindE (cft_wrap nx2 iu) (\<lambda>iu2.
     bindE (cft_wrap ny2 iv) (\<lambda>iv2.
     bindE (cft_colind nx2 iu2 iv2) (\<lambda>c. Inr (fv * fu, c)))))"

text \<open>The bounds of a loop \<^verbatim>\<open>for (i = id - nmask; i <= id + nmask; ++i)\<close>: the variable
  takes the values \<open>id - nmask, \<dots>, id + nmask\<close> and is incremented once more.\<close>

definition support :: "int \<Rightarrow> error + int list" where
  "support idx =
     bindE (int_chk (idx - nmask)) (\<lambda>lo.
     bindE (int_chk (idx + nmask + 1)) (\<lambda>_. Inr [lo..idx + nmask]))"

text \<open>Lines 289 and 290 and the quotients of lines 309 to 312: the increment
  \<^verbatim>\<open>uinc = umax / (nx2 / 2)\<close> and the scaled coordinate \<^verbatim>\<open>u[i] / uinc\<close>.  The divisions
  are divisions of doubles, which do not trap: for \<open>nx2 / 2 = 0\<close> and \<open>umax \<noteq> 0\<close> the
  increment is an infinity and the scaled coordinate is zero; for \<open>umax = 0\<close> the scaled
  coordinate is an infinity or a NaN, for which \<open>None\<close> stands.\<close>

definition cft_quotient :: "real \<Rightarrow> real \<Rightarrow> int \<Rightarrow> real option" where
  "cft_quotient ui um n2 =
     (if um = 0 then None
      else if c_div n2 2 = 0 then Some 0
      else Some (ui / (um / of_int (c_div n2 2))))"

text \<open>Lines 309 and 312 (and 310, 311): \<^verbatim>\<open>idu = floor(u[i] / uinc + 0.5)\<close> and
  \<^verbatim>\<open>ufrc = u[i] / uinc\<close>.  The assignment to \<^verbatim>\<open>idu\<close> converts a double to an \<^verbatim>\<open>int\<close>; the
  conversion of an infinity, of a NaN and of a value outside the range of \<^verbatim>\<open>int\<close> is
  undefined.  The result is the pair \<open>(ufrc, idu)\<close>.\<close>

definition cft_nearest :: "real \<Rightarrow> real \<Rightarrow> int \<Rightarrow> error + (real \<times> int)" where
  "cft_nearest ui um n2 =
     (case cft_quotient ui um n2 of
        None \<Rightarrow> Inl Conversion_out_of_range
      | Some frc \<Rightarrow> bindE (double_to_int (of_int \<lfloor>frc + 1 / 2\<rfloor>)) (\<lambda>idx. Inr (frc, idx)))"

text \<open>Lines 309 to 334: the body of the main loop for one measurement \<open>(ui, vi)\<close>; the
  result lists the 25 pairs of a value and a column index in the order of
  \<^verbatim>\<open>counter\<close>.\<close>

definition cft_row :: "purify_measurement_cparam \<Rightarrow> int \<Rightarrow> int \<Rightarrow> real \<Rightarrow> real \<Rightarrow> error + (real \<times> int) list" where
  "cft_row P nx2 ny2 ui vi =
     bindE (cft_nearest ui (umax P) nx2) (\<lambda>(ufrc, idu).
     bindE (cft_nearest vi (vmax P) ny2) (\<lambda>(vfrc, idv).
     bindE (support idv) (\<lambda>ivs.
     bindE (support idu) (\<lambda>ius.
     bindE (mapE (\<lambda>iv. bindE (convfn_lookup iv vfrc) (\<lambda>fv.
                    mapE (cft_entry nx2 ny2 ufrc fv iv) ius)) ivs) (\<lambda>rows.
     Inr (concat rows))))))"

text \<open>Lines 245 to 340.  The result is the matrix \<^verbatim>\<open>mat\<close> and the array \<^verbatim>\<open>deconv\<close>.\<close>

definition purify_measurement_init_cft ::
  "purify_measurement_cparam \<Rightarrow> real list \<Rightarrow> real list \<Rightarrow> error + (purify_sparsemat_row \<times> real list)" where
  "purify_measurement_init_cft P u v =
     bindE (int_chk (ofx P * nx1 P)) (\<lambda>nx2.
     bindE (int_chk (ofy P * ny1 P)) (\<lambda>ny2.
     bindE (int_chk (nx2 * ny2)) (\<lambda>nc.
     bindE (int_chk (nmeas P * (2 * nmask + 1))) (\<lambda>n5.
     bindE (int_chk (n5 * (2 * nmask + 1))) (\<lambda>nv.
     let numel = (2 * nmask + 1) * (2 * nmask + 1) in
     bindE (mapE (\<lambda>i. bindE (load u i) (\<lambda>ui. bindE (load v i) (\<lambda>vi.
                    cft_row P nx2 ny2 ui vi))) [0..nmeas P - 1]) (\<lambda>rows.
     bindE (int_chk (nx1 P * ny1 P)) (\<lambda>n1.
     Inr (\<lparr>nrows = nmeas P, ncols = nc, nvals = nv, real_flag = 1, cvals = None,
            vals = map fst (concat rows), colind = map snd (concat rows),
            rowptr = map (\<lambda>j. j * numel) [0..nmeas P]\<rparr>,
          replicate (nat n1) 1))))))))"

subsection \<open>The entries of a row, written without the checks\<close>

text \<open>The functions below repeat the arithmetic of lines 309 to 330 with no check.
  They are used to state what \<^verbatim>\<open>purify_measurement_init_cft\<close> stores when no
  check fails.\<close>

definition wrap_cell :: "int \<Rightarrow> int \<Rightarrow> int" where
  "wrap_cell n2 i = (let i2 = (if i < 0 then i + n2 else i) in if i2 \<ge> n2 then i2 - n2 else i2)"

definition table_index :: "int \<Rightarrow> real \<Rightarrow> int" where
  "table_index i frc = \<lfloor>tgtocg * \<bar>of_int i - frc\<bar> + 1 / 2\<rfloor>"

definition scaled_coord :: "real \<Rightarrow> real \<Rightarrow> int \<Rightarrow> real" where
  "scaled_coord ui um n2 = ui / (um / of_int (n2 div 2))"

definition nearest_cell :: "real \<Rightarrow> int" where
  "nearest_cell frc = \<lfloor>frc + 1 / 2\<rfloor>"

definition row_entries :: "int \<Rightarrow> int \<Rightarrow> real \<Rightarrow> real \<Rightarrow> (real \<times> int) list" where
  "row_entries nx2 ny2 ufrc vfrc =
     concat (map (\<lambda>iv. map (\<lambda>iu.
         (convfn_at (nat (table_index iv vfrc)) * convfn_at (nat (table_index iu ufrc)),
          wrap_cell ny2 iv * nx2 + wrap_cell nx2 iu))
        [nearest_cell ufrc - nmask..nearest_cell ufrc + nmask])
       [nearest_cell vfrc - nmask..nearest_cell vfrc + nmask])"

definition measurement_rows :: "purify_measurement_cparam \<Rightarrow> real list \<Rightarrow> real list \<Rightarrow> (real \<times> int) list list" where
  "measurement_rows P u v =
     map (\<lambda>i. row_entries (ofx P * nx1 P) (ofy P * ny1 P)
                 (scaled_coord (u ! nat i) (umax P) (ofx P * nx1 P))
                 (scaled_coord (v ! nat i) (vmax P) (ofy P * ny1 P)))
       [0..nmeas P - 1]"

text \<open>The sizes computed from a parameter block are values of type \<^verbatim>\<open>int\<close>.\<close>

definition cparam_sizes_ok :: "purify_measurement_cparam \<Rightarrow> bool" where
  "cparam_sizes_ok P =
     (c_int_ok (ofx P * nx1 P * (ofy P * ny1 P)) \<and> c_int_ok (nmeas P * 25) \<and>
      c_int_ok (nx1 P * ny1 P))"

text \<open>Every sample coordinate lies in \<open>(-umax, umax]\<close>, respectively \<open>(-vmax, vmax]\<close>.\<close>

definition coords_in_range :: "purify_measurement_cparam \<Rightarrow> real list \<Rightarrow> real list \<Rightarrow> bool" where
  "coords_in_range P u v =
     (nmeas P \<le> int (length u) \<and> nmeas P \<le> int (length v) \<and>
      list_all (\<lambda>i. - umax P < u ! nat i \<and> u ! nat i \<le> umax P \<and>
                    - vmax P < v ! nat i \<and> v ! nat i \<le> vmax P) [0..nmeas P - 1])"

text \<open>The matrix that \<^verbatim>\<open>purify_measurement_init_cft\<close> builds when no check fails.\<close>

definition cft_matrix :: "purify_measurement_cparam \<Rightarrow> real list \<Rightarrow> real list \<Rightarrow> purify_sparsemat_row" where
  "cft_matrix P u v =
     \<lparr>nrows = nmeas P, ncols = ofx P * nx1 P * (ofy P * ny1 P), nvals = nmeas P * 25,
      real_flag = 1, cvals = None,
      vals = map fst (concat (measurement_rows P u v)),
      colind = map snd (concat (measurement_rows P u v)),
      rowptr = map (\<lambda>j. j * 25) [0..nmeas P]\<rparr>"

section \<open>Collaborators of the measurement operators\<close>

subsection \<open>FFTW\<close>

text \<open>FFTW is an external library.  A plan is modelled by what it was created for: the
  dimensions \<open>n0\<close>, \<open>n1\<close> of a two-dimensional transform in row-major order and the sign
  of the exponent (\<open>-1\<close> for \<^verbatim>\<open>FFTW_FORWARD\<close>, \<open>+1\<close> for \<^verbatim>\<open>FFTW_BACKWARD\<close>).  Executing
  a plan computes the unnormalised discrete Fourier transform of the FFTW manual:
  \<open>Y[k0, k1] = \<Sum> X[j0, j1] exp(sign 2\<pi>i (j0 k0 / n0 + j1 k1 / n1))\<close>.\<close>

record fftw_plan =
  plan_n0 :: nat
  plan_n1 :: nat
  plan_sign :: int

definition dft_phase :: "nat \<Rightarrow> nat \<Rightarrow> int \<Rightarrow> nat \<Rightarrow> nat \<Rightarrow> nat \<Rightarrow> nat \<Rightarrow> real" where
  "dft_phase m0 m1 s k0 k1 j0 j1 =
     of_int s * (2 * pi) * (of_nat (j0 * k0) / of_nat m0 + of_nat (j1 * k1) / of_nat m1)"

text \<open>\<^verbatim>\<open>fftw_execute_dft(plan, in, out)\<close>: the complex transform, on the first
  \<open>n0 * n1\<close> entries of the array.\<close>

definition fftw_execute_dft :: "fftw_plan \<Rightarrow> complex list \<Rightarrow> error + complex list" where
  "fftw_execute_dft p xs =
     (let m0 = plan_n0 p; m1 = plan_n1 p
      in if m0 * m1 \<le> length xs
         then Inr (map (\<lambda>k. \<Sum>j<m0 * m1. xs ! j *
                      cis (dft_phase m0 m1 (plan_sign p) (k div m1) (k mod m1) (j div m1) (j mod m1)))
                     [0..<m0 * m1] @ drop (m0 * m1) xs)
         else Inl Index_out_of_bounds)"


subsection \<open>The quadrant swap\<close>

text \<open>Modelled from the spec: \<^verbatim>\<open>purify_utils_fftshift_2d_c\<close> is defined in
  \<^verbatim>\<open>purify_utils.c\<close>, which is not part of the sources at hand.  The specification
  describes it as a grid-shift reordering equivalent to swapping FFT quadrants: each
  coordinate is shifted cyclically by half of its dimension.  The grid is addressed as
  the measurement operators address it, \<open>ind = iy * nx + ix\<close>.\<close>

definition fftshift_index :: "nat \<Rightarrow> nat \<Rightarrow> nat \<Rightarrow> nat" where
  "fftshift_index n m k = ((k div n + m div 2) mod m) * n + (k mod n + n div 2) mod n"

definition purify_utils_fftshift_2d_c :: "complex list \<Rightarrow> int \<Rightarrow> int \<Rightarrow> error + complex list" where
  "purify_utils_fftshift_2d_c xs n m =
     (if 0 \<le> n \<and> 0 \<le> m \<and> n * m \<le> int (length xs)
      then Inr (map (\<lambda>k. xs ! fftshift_index (nat n) (nat m) k) [0..<nat (n * m)] @
                drop (nat (n * m)) xs)
      else Inl Index_out_of_bounds)"

subsection \<open>Sparse matrix products\<close>

text \<open>Modelled from the spec: \<^verbatim>\<open>purify_sparsemat_fwd_complexr\<close> and
  \<^verbatim>\<open>purify_sparsemat_adj_complexr\<close> are defined in \<^verbatim>\<open>purify_sparsemat.c\<close>, which is not
  part of the sources at hand.  By the specification the first computes \<open>out = M in\<close>
  and the second \<open>out = M\<^sup>T in\<close> for the matrix \<open>M\<close> in compressed row storage with real
  values, where duplicate column indices of a row accumulate; the output has \<open>nrows\<close>,
  respectively \<open>ncols\<close> entries.  The validity of the indices is a precondition that is
  not checked at run time; here a matrix that violates the invariants of the
  specification yields an error.\<close>

definition sparsemat_ok :: "purify_sparsemat_row \<Rightarrow> bool" where
  "sparsemat_ok A =
     (0 \<le> nrows A \<and> 0 \<le> ncols A \<and>
      int (length (rowptr A)) = nrows A + 1 \<and>
      rowptr A ! 0 = 0 \<and> rowptr A ! nat (nrows A) = nvals A \<and>
      list_all (\<lambda>r. rowptr A ! r \<le> rowptr A ! Suc r) [0..<nat (nrows A)] \<and>
      int (length (vals A)) = nvals A \<and> int (length (colind A)) = nvals A \<and>
      list_all (\<lambda>c. 0 \<le> c \<and> c < ncols A) (colind A))"

definition purify_sparsemat_fwd_complexr :: "complex list \<Rightarrow> purify_sparsemat_row \<Rightarrow> error + complex list" where
  "purify_sparsemat_fwd_complexr xs A =
     (if sparsemat_ok A \<and> ncols A \<le> int (length xs)
      then Inr (map (\<lambda>r. \<Sum>j = nat (rowptr A ! r)..<nat (rowptr A ! Suc r).
                            complex_of_real (vals A ! j) * xs ! nat (colind A ! j))
                  [0..<nat (nrows A)])
      else Inl Index_out_of_bounds)"

definition purify_sparsemat_adj_complexr :: "complex list \<Rightarrow> purify_sparsemat_row \<Rightarrow> error + complex list" where
  "purify_sparsemat_adj_complexr ys A =
     (if sparsemat_ok A \<and> nrows A \<le> int (length ys)
      then Inr (map (\<lambda>c. \<Sum>r<nat (nrows A). \<Sum>j = nat (rowptr A ! r)..<nat (rowptr A ! Suc r).
                            (if nat (colind A ! j) = c then complex_of_real (vals A ! j) * ys ! r else 0))
                  [0..<nat (ncols A)])
      else Inl Index_out_of_bounds)"

section \<open>The continuous measurement operators\<close>

text \<open>The array \<^verbatim>\<open>data\<close> of the operators: the parameter block, the deconvolution
  array, the interpolation matrix and the FFTW plan.  The scratch array \<^verbatim>\<open>data[4]\<close> has
  \<open>nx2 * ny2\<close> entries; it carries no information into a call, and an entry of it is
  read only after the call has written it.\<close>

record cft_data =
  param :: purify_measurement_cparam
  deconv :: "real list"
  mat :: purify_sparsemat_row
  plan :: fftw_plan

primrec foldE :: "('a \<Rightarrow> 's \<Rightarrow> error + 's) \<Rightarrow> 'a list \<Rightarrow> 's \<Rightarrow> error + 's" where
  "foldE f [] s = Inr s"
| "foldE f (a # as) s = bindE (f a s) (foldE f as)"

text \<open>Line 398 (and 477): the normalisation \<^verbatim>\<open>scale = 1 / sqrt((double) (nx2 * ny2))\<close>.\<close>

definition cft_scale :: "purify_measurement_cparam \<Rightarrow> real" where
  "cft_scale P = 1 / sqrt (of_int (ofx P * nx1 P * (ofy P * ny1 P)))"

text \<open>Lines 408 and 409: the two statements of the inner loop of the zero padding, for
  the pixel \<open>i\<close> of the row that starts at \<open>st1\<close> in the image and at \<open>st2\<close> in the padded
  array.\<close>

definition cft_pad_pixel ::
  "int \<Rightarrow> int \<Rightarrow> int \<Rightarrow> real \<Rightarrow> complex list \<Rightarrow> real list \<Rightarrow> int \<Rightarrow> complex list \<Rightarrow> error + complex list" where
  "cft_pad_pixel st1 st2 npadx scale xin dec i temp =
     bindE (load xin (st1 + i)) (\<lambda>x.
     bindE (store temp (st2 + i + npadx) (x * complex_of_real scale)) (\<lambda>temp1.
     bindE (load temp1 (st2 + i + npadx)) (\<lambda>t.
     bindE (load dec (st1 + i)) (\<lambda>d.
     store temp1 (st2 + i + npadx) (t * complex_of_real d)))))"

text \<open>Lines 390 to 411: the scratch array is cleared and the scaled image is written
  into it, one quarter of each padded dimension away from the origin.\<close>

definition cft_zero_pad :: "purify_measurement_cparam \<Rightarrow> real list \<Rightarrow> complex list \<Rightarrow> error + complex list" where
  "cft_zero_pad P dec xin =
     (let nx2 = ofx P * nx1 P; ny2 = ofy P * ny1 P;
          npadx = c_div nx2 4; npady = c_div ny2 4
      in foldE (\<lambda>j. foldE (cft_pad_pixel (j * nx1 P) ((j + npady) * nx2) npadx (cft_scale P) xin dec)
                       [0..nx1 P - 1])
           [0..ny1 P - 1] (replicate (nat (nx2 * ny2)) 0))"

text \<open>\<^verbatim>\<open>purify_measurement_cftfwd\<close>, lines 363 to 421.\<close>

definition purify_measurement_cftfwd :: "cft_data \<Rightarrow> complex list \<Rightarrow> error + complex list" where
  "purify_measurement_cftfwd D xin =
     (let P = param D; nx2 = ofx P * nx1 P; ny2 = ofy P * ny1 P
      in bindE (cft_zero_pad P (deconv D) xin) (\<lambda>temp1.
         bindE (purify_utils_fftshift_2d_c temp1 nx2 ny2) (\<lambda>temp2.
         bindE (fftw_execute_dft (plan D) temp2) (\<lambda>temp3.
         purify_sparsemat_fwd_complexr temp3 (mat D)))))"

text \<open>Lines 487 to 495: the cropping loops.  The output \<^verbatim>\<open>xout\<close> is written at
  \<open>st1 + i = j * nx1 + i\<close>, that is, entry after entry in the order of the loops.\<close>

definition cft_crop_pixel ::
  "int \<Rightarrow> int \<Rightarrow> int \<Rightarrow> real \<Rightarrow> complex list \<Rightarrow> real list \<Rightarrow> int \<Rightarrow> error + complex" where
  "cft_crop_pixel st1 st2 npadx scale temp dec i =
     bindE (load temp (st2 + i + npadx)) (\<lambda>t.
     bindE (load dec (st1 + i)) (\<lambda>d.
     Inr (t * complex_of_real scale * complex_of_real d)))"

definition cft_crop :: "purify_measurement_cparam \<Rightarrow> real list \<Rightarrow> complex list \<Rightarrow> error + complex list" where
  "cft_crop P dec temp =
     (let nx2 = ofx P * nx1 P; ny2 = ofy P * ny1 P;
          npadx = c_div nx2 4; npady = c_div ny2 4
      in bindE (mapE (\<lambda>j. mapE (cft_crop_pixel (j * nx1 P) ((j + npady) * nx2) npadx (cft_scale P) temp dec)
                              [0..nx1 P - 1])
                  [0..ny1 P - 1]) (\<lambda>rows. Inr (concat rows)))"

text \<open>\<^verbatim>\<open>purify_measurement_cftadj\<close>, lines 444 to 497.  The product with the transposed
  matrix fills the scratch array, which has \<open>nx2 * ny2\<close> entries.\<close>

definition purify_measurement_cftadj :: "cft_data \<Rightarrow> complex list \<Rightarrow> error + complex list" where
  "purify_measurement_cftadj D yin =
     (let P = param D; nx2 = ofx P * nx1 P; ny2 = ofy P * ny1 P
      in bindE (purify_sparsemat_adj_complexr yin (mat D)) (\<lambda>temp1.
         if int (length temp1) > nx2 * ny2 then Inl Index_out_of_bounds
         else
         bindE (fftw_execute_dft (plan D) temp1) (\<lambda>temp2.
         bindE (purify_utils_fftshift_2d_c temp2 nx2 ny2) (\<lambda>temp3.
         cft_crop P (deconv D) temp3))))"

section \<open>The operators for real images\<close>

text \<open>\<^verbatim>\<open>purify_measurement_symcftfwd\<close>, lines 618 to 639: the output of
  \<^verbatim>\<open>purify_measurement_cftfwd\<close>, then \<^verbatim>\<open>yout[i + ny] = conj(yout[i])\<close> for \<open>i < ny = nmeas\<close>.\<close>

definition purify_measurement_symcftfwd :: "cft_data \<Rightarrow> complex list \<Rightarrow> error + complex list" where
  "purify_measurement_symcftfwd D xin =
     bindE (purify_measurement_cftfwd D xin) (\<lambda>yout.
     let ny = nmeas (param D) in
     bindE (mapE (\<lambda>i. bindE (load yout i) (\<lambda>z. Inr (cnj z))) [0..ny - 1]) (\<lambda>cs.
     Inr (take (nat ny) yout @ cs @ drop (nat (2 * ny)) yout)))"

text \<open>\<^verbatim>\<open>purify_measurement_symcftadj\<close>, lines 664 to 685: the output of
  \<^verbatim>\<open>purify_measurement_cftadj\<close>, then \<^verbatim>\<open>xout[i] = 2*creal(xout[i]) + 0.0*I\<close> for
  \<open>i < nx = nx1 * ny1\<close>.\<close>

definition purify_measurement_symcftadj :: "cft_data \<Rightarrow> complex list \<Rightarrow> error + complex list" where
  "purify_measurement_symcftadj D yin =
     bindE (purify_measurement_cftadj D yin) (\<lambda>xout.
     let nx = nx1 (param D) * ny1 (param D) in
     bindE (mapE (\<lambda>i. bindE (load xout i) (\<lambda>z. Inr (complex_of_real (2 * Re z) + complex_of_real 0 * \<i>))) [0..nx - 1]) (\<lambda>rs.
     Inr (rs @ drop (nat nx) xout)))"

text \<open>The standard inner product of two complex vectors.\<close>

definition cinner :: "complex list \<Rightarrow> complex list \<Rightarrow> complex" where
  "cinner xs ys = (\<Sum>i<length xs. xs ! i * cnj (ys ! i))"

subsection \<open>The window of the image in the padded array\<close>

text \<open>The image is not empty, the padded row is at least as long as a row of the
  image, and the last pixel of the window, at
  \<open>(ny1 - 1 + ny2 / 4) * nx2 + (nx1 - 1) + nx2 / 4\<close>, lies inside the padded array.\<close>

definition cft_window_ok :: "purify_measurement_cparam \<Rightarrow> bool" where
  "cft_window_ok P =
     (0 < nx1 P \<and> 0 < ny1 P \<and> nx1 P \<le> ofx P * nx1 P \<and> 0 < ofy P * ny1 P \<and>
      (ny1 P - 1 + (ofy P * ny1 P) div 4) * (ofx P * nx1 P) + (nx1 P - 1) + (ofx P * nx1 P) div 4
        < ofx P * nx1 P * (ofy P * ny1 P))"

text \<open>The index in the padded array of the pixel stored at \<open>m = j * nx1 + i\<close> in the
  image: \<open>(j + ny2 / 4) * nx2 + i + nx2 / 4\<close>.\<close>

definition window_index :: "purify_measurement_cparam \<Rightarrow> nat \<Rightarrow> nat" where
  "window_index P m =
     nat ((int m div nx1 P + (ofy P * ny1 P) div 4) * (ofx P * nx1 P) + int m mod nx1 P +
          (ofx P * nx1 P) div 4)"

text \<open>The padded array after the loops of lines 403 to 411, and the cropped image
  after the loops of lines 487 to 495, written without the checks.\<close>

definition padded_image :: "purify_measurement_cparam \<Rightarrow> real list \<Rightarrow> complex list \<Rightarrow> complex list" where
  "padded_image P dec xin =
     fold (\<lambda>m t. t[window_index P m :=
                    xin ! m * complex_of_real (cft_scale P) * complex_of_real (dec ! m)])
       [0..<nat (ny1 P) * nat (nx1 P)]
       (replicate (nat (ofx P * nx1 P * (ofy P * ny1 P))) 0)"

definition cropped_image :: "purify_measurement_cparam \<Rightarrow> real list \<Rightarrow> complex list \<Rightarrow> complex list" where
  "cropped_image P dec temp =
     map (\<lambda>m. temp ! window_index P m * complex_of_real (cft_scale P) * complex_of_real (dec ! m))
       [0..<nat (ny1 P) * nat (nx1 P)]"

text \<open>The data of an operator fit together: the window of the image lies inside the
  padded array, the matrix is a valid CSR matrix with one row per measurement and one
  column per cell of the padded array, the deconvolution array covers the image and the
  plan transforms the padded array.\<close>

definition cft_data_ok :: "cft_data \<Rightarrow> bool" where
  "cft_data_ok D =
     (cft_window_ok (param D) \<and> sparsemat_ok (mat D) \<and>
      nrows (mat D) = nmeas (param D) \<and>
      ncols (mat D) = ofx (param D) * nx1 (param D) * (ofy (param D) * ny1 (param D)) \<and>
      nx1 (param D) * ny1 (param D) \<le> int (length (deconv D)) \<and>
      int (plan_n0 (plan D) * plan_n1 (plan D)) =
        ofx (param D) * nx1 (param D) * (ofy (param D) * ny1 (param D)))"

section \<open>The power method (\<^verbatim>\<open>purify_measurement_pow_meth\<close>)\<close>

text \<open>The operators \<^verbatim>\<open>A\<close> and \<^verbatim>\<open>At\<close> are function pointers: in the model, functions from
  the input vector to the output vector they write.  A double of this function is a
  real number or a NaN, for which \<open>None\<close> stands, and an entry of a complex vector is a
  complex number or an entry with a NaN component, \<open>None\<close> again: the division of a
  start vector of norm zero by its norm is \<open>0 / 0\<close>, and the NaN spreads through the
  arithmetic that follows.  Infinities do not arise: the only divisor is the norm of
  the divided vector, which is zero only when every entry of the vector is zero (lemma
  \<open>dznrm2_zero\<close>).

  Two collaborators are not part of the sources at hand: \<^verbatim>\<open>cblas_dznrm2(n, x, 1)\<close> of BLAS
  is the Euclidean norm of the first \<open>n\<close> entries, a NaN when one of them is a NaN, and
  \<^verbatim>\<open>purify_ran_gasdev2(seedn)\<close> is a random source, given by the sequence \<open>g\<close> of the
  numbers that its successive calls return.\<close>

definition cblas_dznrm2 :: "nat \<Rightarrow> complex option list \<Rightarrow> real option" where
  "cblas_dznrm2 n xs =
     (if list_all (\<lambda>z. z \<noteq> None) (take n xs)
      then Some (sqrt (\<Sum>z\<leftarrow>take n xs. (cmod (the z))\<^sup>2))
      else None)"










subsection \<open>The iteration of the specification\<close>

text \<open>The power iteration in the words of the specification, on vectors of complex
  numbers and for operators \<open>f1\<close>, \<open>f2\<close> on such vectors: apply the two operators, measure
  the 2-norm of the result, renormalise.  \<open>pow_bound k\<close> is the norm measured in
  iteration \<open>k\<close> (counted from 0), \<open>pow_norm k\<close> the norm of the iteration before, which
  is 1 for the first iteration, and \<open>pow_rel k\<close> the relative change, which is signed:
  it is negative when the norm decreases.\<close>

definition l2_norm :: "complex list \<Rightarrow> real" where
  "l2_norm v = sqrt (\<Sum>z\<leftarrow>v. (cmod z)\<^sup>2)"

definition unit_vector :: "complex list \<Rightarrow> complex list" where
  "unit_vector v = map (\<lambda>z. z / complex_of_real (l2_norm v)) v"

primrec pow_iterate ::
  "(complex list \<Rightarrow> complex list) \<Rightarrow> (complex list \<Rightarrow> complex list) \<Rightarrow>
   complex list \<Rightarrow> nat \<Rightarrow> complex list" where
  "pow_iterate f1 f2 x0 0 = x0"
| "pow_iterate f1 f2 x0 (Suc k) = unit_vector (f2 (f1 (pow_iterate f1 f2 x0 k)))"







section \<open>The transform of a real image (\<^verbatim>\<open>purify_measurement_fft_real\<close>)\<close>







section \<open>Concrete inputs\<close>

text \<open>A parameter block with one measurement: a 2-by-2 image, oversampled twice in each
  direction to a padded 4-by-4 grid, with \<open>umax = vmax = 2\<close>, so that the increments
  \<^verbatim>\<open>uinc\<close> and \<^verbatim>\<open>vinc\<close> are 1.\<close>

definition P_example :: purify_measurement_cparam where
  "P_example = \<lparr>nmeas = 1, nx1 = 2, ny1 = 2, ofx = 2, ofy = 2, umax = 2, vmax = 2\<rparr>"

text \<open>The plans of the forward and of the adjoint operator for the 4-by-4 padded grid.\<close>

definition plan_fwd_example :: fftw_plan where
  "plan_fwd_example = \<lparr>plan_n0 = 4, plan_n1 = 4, plan_sign = - 1\<rparr>"

definition D_example :: cft_data where
  "D_example = \<lparr>param = P_example, deconv = replicate 4 1,
                 mat = cft_matrix P_example [1] [0], plan = plan_fwd_example\<rparr>"

text \<open>A parameter block whose padded grid is a single cell, so that \<open>nx2 / 2 = 0\<close> and
  the increments \<^verbatim>\<open>uinc\<close> and \<^verbatim>\<open>vinc\<close> are infinite.\<close>

definition P_one_cell :: purify_measurement_cparam where
  "P_one_cell = \<lparr>nmeas = 1, nx1 = 1, ny1 = 1, ofx = 1, ofy = 1, umax = 2, vmax = 2\<rparr>"

text \<open>A parameter block without oversampling: a 4-by-4 image on a 4-by-4 grid.\<close>

definition P_unpadded :: purify_measurement_cparam where
  "P_unpadded = \<lparr>nmeas = 1, nx1 = 4, ny1 = 4, ofx = 1, ofy = 1, umax = 2, vmax = 2\<rparr>"

definition D_unpadded :: cft_data where
  "D_unpadded = \<lparr>param = P_unpadded, deconv = replicate 16 1,
                  mat = cft_matrix P_unpadded [1] [0], plan = plan_fwd_example\<rparr>"

definition D_adj_example :: cft_data where
  "D_adj_example = D_example\<lparr>plan := \<lparr>plan_n0 = 4, plan_n1 = 4, plan_sign = 1\<rparr>\<rparr>"



text \<open>The transform of the five kernel samples around the measurement of the example,
  \<open>1\<close>, \<open>convfn_at 120\<close> twice and \<open>convfn_at 240\<close> twice: at frequency zero the samples
  add up, at the half-grid frequency the two outermost samples, which fall on the same
  cell, are subtracted and the two others cancel.\<close>

definition kernel_sum :: real where
  "kernel_sum = 1 + 2 * convfn_at 120 + 2 * convfn_at 240"

definition kernel_alt :: real where
  "kernel_alt = 1 - 2 * convfn_at 240"





section \<open>Properties of the checked steps\<close>

lemma bindE_Inr [simp]: "bindE (Inr a) f = f a"
  by (simp add: bindE_def)

lemma bindE_Inl [simp]: "bindE (Inl e) f = Inl e"
  by (simp add: bindE_def)

lemma int_chk_ok: "c_int_ok k \<Longrightarrow> int_chk k = Inr k"
  by (simp add: int_chk_def)

section \<open>Properties of the image index maps\<close>

lemma c_div_nonneg: "0 \<le> a \<Longrightarrow> 0 < b \<Longrightarrow> c_div a b = a div b"
  by (simp add: c_div_def)

lemma ixiy2ind_div:
  fixes ix iy n :: int
  assumes "0 \<le> ix" "0 \<le> iy" "iy < n"
  shows "(ix * n + iy) div n = ix"
proof -
  have "(iy + ix * n) div n = iy div n + ix"
    using assms by (subst div_mult_self1) auto
  then show ?thesis using assms by (simp add: add.commute)
qed

text \<open>Where the first coordinate is smaller than both dimensions (and the number of
  pixels is a value of type \<^verbatim>\<open>int\<close>) the linear index is computed and the inverse map
  recovers the pair.\<close>

lemma purify_image_roundtrip:
  assumes "0 \<le> ix" "ix < nx img" "ix < ny img" "0 \<le> iy" "iy < ny img"
    and "c_int_ok (nx img * ny img)"
  shows "purify_image_ixiy2ind ix iy img = Inr (ix * ny img + iy)"
    and "purify_image_ind2iuiv (ix * ny img + iy) img = Inr (ix, iy)"
proof -
  have pos: "0 < ny img" using assms by linarith
  have "ix * ny img + iy < (ix + 1) * ny img"
    using assms by (simp add: algebra_simps)
  also have "\<dots> \<le> nx img * ny img"
    using assms pos by (intro mult_right_mono) auto
  finally have lt: "ix * ny img + iy < nx img * ny img" .
  have p: "0 \<le> ix * ny img" using assms pos by simp
  then have nonneg: "0 \<le> ix * ny img + iy" using assms by simp
  have top: "nx img * ny img \<le> INT_MAX" using assms(6) by (simp add: c_int_ok_def)
  have "ix * 1 \<le> ix * ny img" using assms(1) pos by (intro mult_left_mono) auto
  then have le: "ix \<le> ix * ny img" by simp
  have ok: "c_int_ok (ix * ny img)" "c_int_ok (ix * ny img + iy)" "c_int_ok ix" "c_int_ok iy"
    using p nonneg lt top le assms(1-5) unfolding c_int_ok_def INT_MIN_def INT_MAX_def by linarith+
  show "purify_image_ixiy2ind ix iy img = Inr (ix * ny img + iy)"
    using assms ok by (simp add: purify_image_ixiy2ind_def int_chk_ok)
  have "c_div (ix * ny img + iy) (ny img) = ix"
    using c_div_nonneg [OF nonneg pos] ixiy2ind_div [of ix iy "ny img"] assms by simp
  then show "purify_image_ind2iuiv (ix * ny img + iy) img = Inr (ix, iy)"
    using lt pos ok assms(6) by (simp add: purify_image_ind2iuiv_def int_chk_ok)
qed

text \<open>
  Claim C9.  For every valid index pair \<open>0 \<le> ix < nx\<close>, \<open>0 \<le> iy < ny\<close> the claim
  expects \<^verbatim>\<open>purify_image_ixiy2ind\<close> to return \<open>ix * ny + iy\<close> without the fatal error.
  On a 4-by-2 image the valid pair \<open>(3, 1)\<close> raises the error: the guard of the source
  tests \<open>ix \<ge> ny\<close> where the second coordinate \<open>iy\<close> is meant.
\<close>

theorem purify_image_ixiy2ind_valid_pair_rejected:
  "purify_image_ixiy2ind 3 1 \<lparr>fov_x = 0, fov_y = 0, nx = 4, ny = 2, pix = replicate 8 0\<rparr>
     = Inl (Purify_error_generic ''Image index too large'')"
  by (simp add: purify_image_ixiy2ind_def)


section \<open>Properties of the checked steps, continued\<close>

lemma mapE_map:
  assumes "\<And>a. a \<in> set as \<Longrightarrow> f a = Inr (g a)"
  shows "mapE f as = Inr (map g as)"
  using assms by (induction as) simp_all

lemma c_div_2: "0 \<le> n \<Longrightarrow> c_div n 2 = n div 2"
  by (simp add: c_div_def)

lemma c_div_4: "0 \<le> n \<Longrightarrow> c_div n 4 = n div 4"
  by (simp add: c_div_def)

section \<open>The table of the kernel is read inside its extent\<close>

lemma tgtocg_value: "tgtocg = 120"
  by (simp add: tgtocg_def NGCF_def nmask_def)

lemma length_convfn: "length convfn = 301"
  by (simp add: convfn_def NGCF_def)

lemma nearest_cell_distance:
  assumes "nearest_cell frc - nmask \<le> i" "i \<le> nearest_cell frc + nmask"
  shows "\<bar>of_int i - frc\<bar> \<le> 5 / 2"
proof -
  have lo: "of_int (nearest_cell frc) \<le> frc + 1 / 2"
    unfolding nearest_cell_def by (rule of_int_floor_le)
  have hi: "frc + 1 / 2 < of_int (nearest_cell frc) + 1"
    unfolding nearest_cell_def by linarith
  have "real_of_int (nearest_cell frc) - 2 \<le> of_int i"
    using assms(1) unfolding nmask_def by linarith
  moreover have "real_of_int i \<le> of_int (nearest_cell frc) + 2"
    using assms(2) unfolding nmask_def by linarith
  ultimately show ?thesis using lo hi by linarith
qed

lemma table_index_range:
  assumes "nearest_cell frc - nmask \<le> i" "i \<le> nearest_cell frc + nmask"
  shows "0 \<le> table_index i frc" and "table_index i frc < NGCF"
proof -
  have d: "\<bar>of_int i - frc\<bar> \<le> 5 / 2"
    using assms by (rule nearest_cell_distance)
  have "0 \<le> 120 * \<bar>real_of_int i - frc\<bar> + 1 / 2" by simp
  then show "0 \<le> table_index i frc"
    by (simp add: table_index_def tgtocg_value)
  have "120 * \<bar>real_of_int i - frc\<bar> + 1 / 2 < 301" using d by simp
  then show "table_index i frc < NGCF"
    by (simp add: table_index_def tgtocg_value NGCF_def floor_less_iff)
qed

lemma convfn_index_ok:
  assumes "nearest_cell frc - nmask \<le> i" "i \<le> nearest_cell frc + nmask"
  shows "convfn_index i frc = Inr (table_index i frc)"
proof -
  have r: "0 \<le> table_index i frc" "table_index i frc < NGCF"
    using assms by (rule table_index_range)+
  have "0 \<le> tgtocg * \<bar>real_of_int i - frc\<bar> + 1 / 2"
    by (simp add: tgtocg_value)
  moreover have "c_int_ok (table_index i frc)"
    using r by (simp add: c_int_ok_def INT_MIN_def INT_MAX_def NGCF_def)
  ultimately show ?thesis
    by (simp add: convfn_index_def double_to_int_def Let_def table_index_def)
qed

lemma convfn_lookup_ok:
  assumes "nearest_cell frc - nmask \<le> i" "i \<le> nearest_cell frc + nmask"
  shows "convfn_lookup i frc = Inr (convfn_at (nat (table_index i frc)))"
proof -
  have r: "0 \<le> table_index i frc" "table_index i frc < NGCF"
    using assms by (rule table_index_range)+
  then have "nat (table_index i frc) < 301" by (simp add: NGCF_def)
  then have "convfn ! nat (table_index i frc) = convfn_at (nat (table_index i frc))"
    by (simp add: convfn_def NGCF_def)
  then show ?thesis
    using r convfn_index_ok [OF assms]
    by (simp add: convfn_lookup_def load_def length_convfn NGCF_def)
qed

section \<open>One row of the interpolation matrix\<close>

lemma scaled_coord_range:
  assumes "4 \<le> n2" "- um < ui" "ui \<le> um"
  shows "- of_int (n2 div 2) < scaled_coord ui um n2"
    and "scaled_coord ui um n2 \<le> of_int (n2 div 2)"
proof -
  have um: "0 < um" using assms by linarith
  have h: "0 < real_of_int (n2 div 2)" using assms(1) by simp
  have eq: "scaled_coord ui um n2 = ui * of_int (n2 div 2) / um"
    by (simp add: scaled_coord_def)
  have "- um * of_int (n2 div 2) < ui * of_int (n2 div 2)"
    using mult_strict_right_mono [OF assms(2) h] by simp
  then show "- of_int (n2 div 2) < scaled_coord ui um n2"
    using um by (simp add: eq pos_less_divide_eq mult.commute)
  have "ui * of_int (n2 div 2) \<le> um * of_int (n2 div 2)"
    using mult_right_mono [OF assms(3), of "of_int (n2 div 2)"] h by simp
  then show "scaled_coord ui um n2 \<le> of_int (n2 div 2)"
    using um by (simp add: eq pos_divide_le_eq mult.commute)
qed

lemma cft_quotient_ok:
  assumes "4 \<le> n2" "- um < ui" "ui \<le> um"
  shows "cft_quotient ui um n2 = Some (scaled_coord ui um n2)"
proof -
  have "um \<noteq> 0" using assms by linarith
  moreover have "c_div n2 2 = n2 div 2" using assms(1) by (simp add: c_div_2)
  moreover have "n2 div 2 \<noteq> 0" using assms(1) by simp
  ultimately show ?thesis by (simp add: cft_quotient_def scaled_coord_def)
qed

lemma nearest_cell_range:
  assumes "- of_int h < frc" "frc \<le> of_int h"
  shows "- h \<le> nearest_cell frc" and "nearest_cell frc \<le> h"
proof -
  have "of_int (- h) \<le> frc + 1 / 2" using assms(1) by simp
  then show "- h \<le> nearest_cell frc"
    unfolding nearest_cell_def by (simp only: le_floor_iff)
  have "frc + 1 / 2 < of_int (h + 1)" using assms(2) by simp
  then have "\<lfloor>frc + 1 / 2\<rfloor> < h + 1" by (simp only: floor_less_iff)
  then show "nearest_cell frc \<le> h" by (simp add: nearest_cell_def)
qed

lemma double_to_int_of_int: "c_int_ok k \<Longrightarrow> double_to_int (of_int k) = Inr k"
  by (simp add: double_to_int_def)

lemma support_ok:
  assumes "c_int_ok (idx - 2)" "c_int_ok (idx + 3)"
  shows "support idx = Inr [idx - nmask..idx + nmask]"
  using assms by (simp add: support_def nmask_def int_chk_def c_int_ok_def)

lemma wrap_cell_range:
  assumes "4 \<le> n2" "- (n2 div 2) - 2 \<le> i" "i \<le> n2 div 2 + 2"
  shows "0 \<le> wrap_cell n2 i" and "wrap_cell n2 i < n2"
  using assms by (auto simp add: wrap_cell_def Let_def)

lemma cft_wrap_ok:
  assumes "4 \<le> n2" "c_int_ok n2" "- (n2 div 2) - 2 \<le> i" "i \<le> n2 div 2 + 2"
  shows "cft_wrap n2 i = Inr (wrap_cell n2 i)"
proof -
  have "c_int_ok (i + n2)" if "i < 0"
    using that assms by (simp add: c_int_ok_def INT_MIN_def INT_MAX_def)
  moreover have "c_int_ok (i - n2)" if "n2 \<le> i"
    using that assms by (simp add: c_int_ok_def INT_MIN_def INT_MAX_def)
  ultimately show ?thesis
    using assms(1) by (auto simp add: cft_wrap_def wrap_cell_def Let_def int_chk_ok)
qed

lemma colind_range:
  fixes iu2 iv2 nx2 ny2 :: int
  assumes "0 \<le> iu2" "iu2 < nx2" "0 \<le> iv2" "iv2 < ny2"
  shows "0 \<le> iv2 * nx2 + iu2" and "iv2 * nx2 + iu2 < nx2 * ny2"
    and "0 \<le> iv2 * nx2" and "iv2 * nx2 \<le> nx2 * ny2"
proof -
  show nn: "0 \<le> iv2 * nx2" using assms by simp
  then show "0 \<le> iv2 * nx2 + iu2" using assms by simp
  have "(iv2 + 1) * nx2 \<le> ny2 * nx2"
    using assms by (intro mult_right_mono) auto
  then show "iv2 * nx2 + iu2 < nx2 * ny2"
    using assms by (simp add: algebra_simps)
  then show "iv2 * nx2 \<le> nx2 * ny2" using assms by linarith
qed

lemma cft_colind_ok:
  assumes "0 \<le> iu2" "iu2 < nx2" "0 \<le> iv2" "iv2 < ny2" "c_int_ok (nx2 * ny2)"
  shows "cft_colind nx2 iu2 iv2 = Inr (iv2 * nx2 + iu2)"
proof -
  note r = colind_range [OF assms(1-4)]
  have "c_int_ok (iv2 * nx2)" "c_int_ok (iv2 * nx2 + iu2)"
    using r assms(5) by (simp_all add: c_int_ok_def INT_MIN_def)
  then show ?thesis by (simp add: cft_colind_def int_chk_ok)
qed

lemma dim_le_product:
  fixes nx2 ny2 :: int
  assumes "4 \<le> nx2" "4 \<le> ny2"
  shows "nx2 \<le> nx2 * ny2" and "ny2 \<le> nx2 * ny2"
proof -
  have "nx2 * 1 \<le> nx2 * ny2" using assms by (intro mult_left_mono) auto
  then show "nx2 \<le> nx2 * ny2" by simp
  have "1 * ny2 \<le> nx2 * ny2" using assms by (intro mult_right_mono) auto
  then show "ny2 \<le> nx2 * ny2" by simp
qed

lemma cft_row_ok:
  assumes dims: "4 \<le> nx2" "4 \<le> ny2" "c_int_ok (nx2 * ny2)"
    and u: "- umax P < ui" "ui \<le> umax P"
    and v: "- vmax P < vi" "vi \<le> vmax P"
  shows "cft_row P nx2 ny2 ui vi =
           Inr (row_entries nx2 ny2 (scaled_coord ui (umax P) nx2) (scaled_coord vi (vmax P) ny2))"
proof -
  define ufrc where "ufrc = scaled_coord ui (umax P) nx2"
  define vfrc where "vfrc = scaled_coord vi (vmax P) ny2"
  define idu where "idu = nearest_cell ufrc"
  define idv where "idv = nearest_cell vfrc"
  have nxy: "nx2 \<le> INT_MAX" "ny2 \<le> INT_MAX"
    using dim_le_product [OF dims(1,2)] dims(3) by (simp_all add: c_int_ok_def)
  have half: "nx2 div 2 \<le> nx2" "ny2 div 2 \<le> ny2" using dims by simp_all
  have okx: "c_int_ok nx2" and oky: "c_int_ok ny2"
    using nxy dims by (simp_all add: c_int_ok_def INT_MIN_def)
  have ru: "- (nx2 div 2) \<le> idu" "idu \<le> nx2 div 2"
    unfolding idu_def ufrc_def
    using nearest_cell_range [OF scaled_coord_range [OF dims(1) u]] by simp_all
  have rv: "- (ny2 div 2) \<le> idv" "idv \<le> ny2 div 2"
    unfolding idv_def vfrc_def
    using nearest_cell_range [OF scaled_coord_range [OF dims(2) v]] by simp_all
  have cu: "c_int_ok idu" "c_int_ok (idu - 2)" "c_int_ok (idu + 3)"
    using ru nxy half dims unfolding c_int_ok_def INT_MIN_def INT_MAX_def by linarith+
  have cv: "c_int_ok idv" "c_int_ok (idv - 2)" "c_int_ok (idv + 3)"
    using rv nxy half dims unfolding c_int_ok_def INT_MIN_def INT_MAX_def by linarith+
  have q: "cft_quotient ui (umax P) nx2 = Some ufrc" "cft_quotient vi (vmax P) ny2 = Some vfrc"
    unfolding ufrc_def vfrc_def
    using cft_quotient_ok [OF dims(1) u] cft_quotient_ok [OF dims(2) v] by simp_all
  have conv: "double_to_int (of_int \<lfloor>ufrc + 1 / 2\<rfloor>) = Inr idu"
             "double_to_int (of_int \<lfloor>vfrc + 1 / 2\<rfloor>) = Inr idv"
    using double_to_int_of_int [OF cu(1)] double_to_int_of_int [OF cv(1)]
    by (simp_all add: idu_def idv_def nearest_cell_def)
  have near: "cft_nearest ui (umax P) nx2 = Inr (ufrc, idu)"
             "cft_nearest vi (vmax P) ny2 = Inr (vfrc, idv)"
    by (simp_all add: cft_nearest_def q conv)
  have sup: "support idu = Inr [idu - nmask..idu + nmask]"
            "support idv = Inr [idv - nmask..idv + nmask]"
    using support_ok [OF cu(2,3)] support_ok [OF cv(2,3)] by simp_all
  have entry: "cft_entry nx2 ny2 ufrc fv iv iu =
      Inr (fv * convfn_at (nat (table_index iu ufrc)), wrap_cell ny2 iv * nx2 + wrap_cell nx2 iu)"
    if iu: "iu \<in> set [idu - nmask..idu + nmask]" and iv: "iv \<in> set [idv - nmask..idv + nmask]"
    for fv iv iu
  proof -
    have bu: "idu - nmask \<le> iu" "iu \<le> idu + nmask" using iu by simp_all
    have bv: "idv - nmask \<le> iv" "iv \<le> idv + nmask" using iv by simp_all
    have lu: "convfn_lookup iu ufrc = Inr (convfn_at (nat (table_index iu ufrc)))"
      using bu unfolding idu_def by (rule convfn_lookup_ok)
    have wu: "- (nx2 div 2) - 2 \<le> iu" "iu \<le> nx2 div 2 + 2"
      using bu ru by (simp_all add: nmask_def)
    have wv: "- (ny2 div 2) - 2 \<le> iv" "iv \<le> ny2 div 2 + 2"
      using bv rv by (simp_all add: nmask_def)
    have col: "cft_colind nx2 (wrap_cell nx2 iu) (wrap_cell ny2 iv) =
                 Inr (wrap_cell ny2 iv * nx2 + wrap_cell nx2 iu)"
      using wrap_cell_range [OF dims(1) wu] wrap_cell_range [OF dims(2) wv] dims(3)
      by (intro cft_colind_ok) simp_all
    show ?thesis
      by (simp add: cft_entry_def lu cft_wrap_ok [OF dims(1) okx wu]
            cft_wrap_ok [OF dims(2) oky wv] col)
  qed
  have inner: "bindE (convfn_lookup iv vfrc) (\<lambda>fv. mapE (cft_entry nx2 ny2 ufrc fv iv) [idu - nmask..idu + nmask])
      = Inr (map (\<lambda>iu. (convfn_at (nat (table_index iv vfrc)) * convfn_at (nat (table_index iu ufrc)),
                         wrap_cell ny2 iv * nx2 + wrap_cell nx2 iu)) [idu - nmask..idu + nmask])"
    if iv: "iv \<in> set [idv - nmask..idv + nmask]" for iv
  proof -
    have bv: "idv - nmask \<le> iv" "iv \<le> idv + nmask" using iv by simp_all
    have lv: "convfn_lookup iv vfrc = Inr (convfn_at (nat (table_index iv vfrc)))"
      using bv unfolding idv_def by (rule convfn_lookup_ok)
    show ?thesis
      unfolding lv bindE_Inr
      by (rule mapE_map) (rule entry [OF _ iv])
  qed
  have rows: "mapE (\<lambda>iv. bindE (convfn_lookup iv vfrc) (\<lambda>fv.
                    mapE (cft_entry nx2 ny2 ufrc fv iv) [idu - nmask..idu + nmask])) [idv - nmask..idv + nmask]
      = Inr (map (\<lambda>iv. map (\<lambda>iu. (convfn_at (nat (table_index iv vfrc)) * convfn_at (nat (table_index iu ufrc)),
                         wrap_cell ny2 iv * nx2 + wrap_cell nx2 iu)) [idu - nmask..idu + nmask])
               [idv - nmask..idv + nmask])"
    by (rule mapE_map) (rule inner)
  show ?thesis
    unfolding cft_row_def near bindE_Inr prod.case sup rows
    by (simp add: row_entries_def ufrc_def vfrc_def idu_def idv_def)
qed

lemma row_entries_colind:
  assumes dims: "4 \<le> nx2" "4 \<le> ny2"
    and u: "- of_int (nx2 div 2) < ufrc" "ufrc \<le> of_int (nx2 div 2)"
    and v: "- of_int (ny2 div 2) < vfrc" "vfrc \<le> of_int (ny2 div 2)"
    and e: "e \<in> set (row_entries nx2 ny2 ufrc vfrc)"
  shows "0 \<le> snd e \<and> snd e < nx2 * ny2"
proof -
  from e obtain iv iu where iv: "nearest_cell vfrc - nmask \<le> iv" "iv \<le> nearest_cell vfrc + nmask"
    and iu: "nearest_cell ufrc - nmask \<le> iu" "iu \<le> nearest_cell ufrc + nmask"
    and s: "snd e = wrap_cell ny2 iv * nx2 + wrap_cell nx2 iu"
    by (auto simp add: row_entries_def)
  have wu: "- (nx2 div 2) - 2 \<le> iu" "iu \<le> nx2 div 2 + 2"
    using iu nearest_cell_range [OF u] by (simp_all add: nmask_def)
  have wv: "- (ny2 div 2) - 2 \<le> iv" "iv \<le> ny2 div 2 + 2"
    using iv nearest_cell_range [OF v] by (simp_all add: nmask_def)
  show ?thesis
    unfolding s
    using colind_range(1,2) [OF wrap_cell_range [OF dims(1) wu] wrap_cell_range [OF dims(2) wv]]
    by simp
qed

lemma length_row_entries: "length (row_entries nx2 ny2 ufrc vfrc) = 25"
proof -
  have "length (concat (map (\<lambda>iv. map (f iv) [a - 2..a + 2]) ivs)) = 5 * length ivs"
    for f :: "int \<Rightarrow> int \<Rightarrow> real \<times> int" and a ivs
    by (induction ivs) simp_all
  then show ?thesis by (simp add: row_entries_def nmask_def)
qed

section \<open>The matrix built by \<^verbatim>\<open>purify_measurement_init_cft\<close>\<close>

lemma load_ok: "0 \<le> k \<Longrightarrow> k < int (length xs) \<Longrightarrow> load xs k = Inr (xs ! nat k)"
  by (simp add: load_def)

lemma init_cft_ok:
  assumes dims: "4 \<le> ofx P * nx1 P" "4 \<le> ofy P * ny1 P"
    and sizes: "cparam_sizes_ok P"
    and coords: "coords_in_range P u v"
  shows "purify_measurement_init_cft P u v =
           Inr (cft_matrix P u v, replicate (nat (nx1 P * ny1 P)) 1)"
proof -
  define nx2 where "nx2 = ofx P * nx1 P"
  define ny2 where "ny2 = ofy P * ny1 P"
  have d: "4 \<le> nx2" "4 \<le> ny2" using dims by (simp_all add: nx2_def ny2_def)
  have nc: "c_int_ok (nx2 * ny2)" and n25: "c_int_ok (nmeas P * 25)" and n1: "c_int_ok (nx1 P * ny1 P)"
    using sizes by (simp_all add: cparam_sizes_ok_def nx2_def ny2_def)
  have "nx2 \<le> INT_MAX" "ny2 \<le> INT_MAX"
    using dim_le_product [OF d] nc by (simp_all add: c_int_ok_def)
  then have ok2: "c_int_ok nx2" "c_int_ok ny2"
    using d by (simp_all add: c_int_ok_def INT_MIN_def)
  have n5: "c_int_ok (nmeas P * 5)"
    using n25 unfolding c_int_ok_def INT_MIN_def INT_MAX_def by linarith
  have row: "bindE (load u i) (\<lambda>ui. bindE (load v i) (\<lambda>vi. cft_row P nx2 ny2 ui vi)) =
      Inr (row_entries nx2 ny2 (scaled_coord (u ! nat i) (umax P) nx2)
             (scaled_coord (v ! nat i) (vmax P) ny2))"
    if i: "i \<in> set [0..nmeas P - 1]" for i
  proof -
    have b: "0 \<le> i" "i < int (length u)" "i < int (length v)"
      using i coords by (simp_all add: coords_in_range_def)
    have r: "- umax P < u ! nat i" "u ! nat i \<le> umax P" "- vmax P < v ! nat i" "v ! nat i \<le> vmax P"
      using i coords by (simp_all add: coords_in_range_def list_all_iff)
    show ?thesis
      by (simp add: load_ok b cft_row_ok [OF d nc r])
  qed
  have rows: "mapE (\<lambda>i. bindE (load u i) (\<lambda>ui. bindE (load v i) (\<lambda>vi. cft_row P nx2 ny2 ui vi)))
                 [0..nmeas P - 1] = Inr (measurement_rows P u v)"
    unfolding measurement_rows_def nx2_def [symmetric] ny2_def [symmetric]
    by (rule mapE_map) (rule row)
  have nv: "int_chk (nmeas P * (2 * nmask + 1)) = Inr (nmeas P * 5)"
    "int_chk (nmeas P * 5 * (2 * nmask + 1)) = Inr (nmeas P * 25)"
    using n5 n25 by (simp_all add: int_chk_def nmask_def mult.commute)
  show ?thesis
    unfolding purify_measurement_init_cft_def nx2_def [symmetric] ny2_def [symmetric]
      int_chk_ok [OF ok2(1)] int_chk_ok [OF ok2(2)] int_chk_ok [OF nc] int_chk_ok [OF n1]
      bindE_Inr nv rows Let_def
    by (simp add: cft_matrix_def nmask_def nx2_def ny2_def)
qed

lemma measurement_rows_colind:
  assumes dims: "4 \<le> ofx P * nx1 P" "4 \<le> ofy P * ny1 P"
    and coords: "coords_in_range P u v"
    and c: "c \<in> set (colind (cft_matrix P u v))"
  shows "0 \<le> c \<and> c < ofx P * nx1 P * (ofy P * ny1 P)"
proof -
  from c obtain i e where i: "i \<in> set [0..nmeas P - 1]"
    and e: "e \<in> set (row_entries (ofx P * nx1 P) (ofy P * ny1 P)
                 (scaled_coord (u ! nat i) (umax P) (ofx P * nx1 P))
                 (scaled_coord (v ! nat i) (vmax P) (ofy P * ny1 P)))"
    and s: "c = snd e"
    by (auto simp add: cft_matrix_def measurement_rows_def)
  have r: "- umax P < u ! nat i" "u ! nat i \<le> umax P" "- vmax P < v ! nat i" "v ! nat i \<le> vmax P"
    using i coords by (simp_all add: coords_in_range_def list_all_iff)
  show ?thesis
    unfolding s
    by (rule row_entries_colind [OF dims scaled_coord_range [OF dims(1) r(1,2)]
          scaled_coord_range [OF dims(2) r(3,4)] e])
qed


text \<open>
  Claim C8.  When every sample coordinate lies in \<open>(-umax, umax]\<close>, respectively
  \<open>(-vmax, vmax]\<close>, and the padded dimensions are even and at least 4 (and the sizes
  are values of type \<^verbatim>\<open>int\<close>), \<^verbatim>\<open>purify_measurement_init_cft\<close> returns a matrix with
  \<open>ncols = nx2 * ny2\<close> all of whose column indices lie in \<open>[0, ncols)\<close>.
\<close>

theorem init_cft_colind_in_range:
  assumes "coords_in_range P u v"
    and "even (ofx P * nx1 P)" and "even (ofy P * ny1 P)"
    and "4 \<le> ofx P * nx1 P" and "4 \<le> ofy P * ny1 P"
    and "cparam_sizes_ok P"
  shows "\<exists>mat deconv. purify_measurement_init_cft P u v = Inr (mat, deconv) \<and>
           ncols mat = ofx P * nx1 P * (ofy P * ny1 P) \<and>
           (\<forall>c\<in>set (colind mat). 0 \<le> c \<and> c < ncols mat)"
proof -
  have "purify_measurement_init_cft P u v =
          Inr (cft_matrix P u v, replicate (nat (nx1 P * ny1 P)) 1)"
    using assms(4,5,6,1) by (rule init_cft_ok)
  moreover have "ncols (cft_matrix P u v) = ofx P * nx1 P * (ofy P * ny1 P)"
    by (simp add: cft_matrix_def)
  moreover have "\<forall>c\<in>set (colind (cft_matrix P u v)). 0 \<le> c \<and> c < ncols (cft_matrix P u v)"
    using measurement_rows_colind [OF assms(4,5,1)] by (simp add: cft_matrix_def)
  ultimately show ?thesis by blast
qed

theorem init_cft_colind_in_range_witness:
  "coords_in_range P_example [1] [0] \<and>
   even (ofx P_example * nx1 P_example) \<and> even (ofy P_example * ny1 P_example) \<and>
   4 \<le> ofx P_example * nx1 P_example \<and> 4 \<le> ofy P_example * ny1 P_example \<and>
   cparam_sizes_ok P_example \<and>
   (\<exists>mat deconv. purify_measurement_init_cft P_example [1] [0] = Inr (mat, deconv) \<and>
      ncols mat = 16 \<and> (\<forall>c\<in>set (colind mat). 0 \<le> c \<and> c < ncols mat))"
proof -
  have h: "coords_in_range P_example [1] [0]" "cparam_sizes_ok P_example"
    by (simp_all add: coords_in_range_def cparam_sizes_ok_def P_example_def c_int_ok_def
          INT_MIN_def INT_MAX_def upto.simps)
  show ?thesis
    using h init_cft_colind_in_range [of P_example "[1]" "[0]"]
    by (simp add: P_example_def)
qed

section \<open>No array is read outside its extent by \<^verbatim>\<open>purify_measurement_init_cft\<close>\<close>

lemma bindE_not_error:
  assumes "m \<noteq> Inl e" and "\<And>a. m = Inr a \<Longrightarrow> f a \<noteq> Inl e"
  shows "bindE m f \<noteq> Inl e"
  using assms by (cases m) simp_all

lemma mapE_not_error:
  assumes "\<And>a. a \<in> set as \<Longrightarrow> f a \<noteq> Inl e"
  shows "mapE f as \<noteq> Inl e"
  using assms
proof (induction as)
  case Nil
  then show ?case by simp
next
  case (Cons a as)
  have "f a \<noteq> Inl e" "mapE f as \<noteq> Inl e" using Cons by simp_all
  then show ?case by (cases "f a"; cases "mapE f as") simp_all
qed

lemma int_chk_in_bounds: "int_chk k \<noteq> Inl Index_out_of_bounds"
  by (simp add: int_chk_def)

lemma double_to_int_in_bounds: "double_to_int x \<noteq> Inl Index_out_of_bounds"
  by (simp add: double_to_int_def Let_def)

lemma cft_nearest_in_bounds: "cft_nearest ui um n2 \<noteq> Inl Index_out_of_bounds"
  unfolding cft_nearest_def
  by (cases "cft_quotient ui um n2") (simp_all add: bindE_not_error double_to_int_in_bounds)

lemma cft_nearest_cell:
  assumes "cft_nearest ui um n2 = Inr (frc, idx)"
  shows "idx = nearest_cell frc"
proof (cases "cft_quotient ui um n2")
  case None
  then show ?thesis using assms by (simp add: cft_nearest_def)
next
  case (Some q)
  then have "bindE (double_to_int (of_int \<lfloor>q + 1 / 2\<rfloor>)) (\<lambda>idx. Inr (q, idx)) = Inr (frc, idx)"
    using assms by (simp add: cft_nearest_def)
  then have "q = frc" "double_to_int (of_int \<lfloor>q + 1 / 2\<rfloor>) = Inr idx"
    by (cases "double_to_int (of_int \<lfloor>q + 1 / 2\<rfloor>)"; simp)+
  then show ?thesis
    by (simp add: double_to_int_def nearest_cell_def Let_def split: if_splits)
qed

lemma support_in_bounds: "support idx \<noteq> Inl Index_out_of_bounds"
  unfolding support_def
  by (intro bindE_not_error int_chk_in_bounds) simp

lemma support_cells:
  assumes "support idx = Inr cells"
  shows "cells = [idx - nmask..idx + nmask]"
proof -
  have "int_chk (idx - nmask) = Inr (idx - nmask)" "int_chk (idx + nmask + 1) = Inr (idx + nmask + 1)"
    using assms by (auto simp add: support_def int_chk_def split: if_splits)
  then show ?thesis using assms by (simp add: support_def)
qed

lemma cft_wrap_in_bounds: "cft_wrap n2 i \<noteq> Inl Index_out_of_bounds"
  unfolding cft_wrap_def
  by (intro bindE_not_error) (simp_all add: int_chk_in_bounds)

lemma cft_colind_in_bounds: "cft_colind nx2 iu2 iv2 \<noteq> Inl Index_out_of_bounds"
  unfolding cft_colind_def
  by (intro bindE_not_error int_chk_in_bounds)

lemma convfn_index_in_table:
  assumes "nearest_cell frc - nmask \<le> i" "i \<le> nearest_cell frc + nmask"
  shows "\<exists>k. convfn_index i frc = Inr k \<and> 0 \<le> k \<and> k < NGCF \<and>
           convfn_lookup i frc = Inr (convfn ! nat k)"
proof -
  have k: "0 \<le> table_index i frc" "table_index i frc < NGCF"
    using assms by (rule table_index_range)+
  have "convfn_lookup i frc = Inr (convfn ! nat (table_index i frc))"
    using k by (simp add: convfn_lookup_def convfn_index_ok [OF assms] load_def length_convfn NGCF_def)
  then show ?thesis using convfn_index_ok [OF assms] k by blast
qed

lemma cft_entry_in_bounds:
  assumes "nearest_cell ufrc - nmask \<le> iu" "iu \<le> nearest_cell ufrc + nmask"
  shows "cft_entry nx2 ny2 ufrc fv iv iu \<noteq> Inl Index_out_of_bounds"
  unfolding cft_entry_def convfn_lookup_ok [OF assms] bindE_Inr
  by (intro bindE_not_error cft_wrap_in_bounds cft_colind_in_bounds) simp

lemma cft_row_in_bounds: "cft_row P nx2 ny2 ui vi \<noteq> Inl Index_out_of_bounds"
proof (cases "cft_nearest ui (umax P) nx2")
  case (Inl e)
  then have "e \<noteq> Index_out_of_bounds" using cft_nearest_in_bounds [of ui "umax P" nx2] by simp
  then show ?thesis by (simp add: cft_row_def Inl)
next
  case a: (Inr a)
  obtain ufrc idu where ua: "a = (ufrc, idu)" by (cases a)
  have idu: "idu = nearest_cell ufrc" using a unfolding ua by (rule cft_nearest_cell)
  show ?thesis
  proof (cases "cft_nearest vi (vmax P) ny2")
    case (Inl e)
    then have "e \<noteq> Index_out_of_bounds" using cft_nearest_in_bounds [of vi "vmax P" ny2] by simp
    then show ?thesis by (simp add: cft_row_def a ua Inl)
  next
    case b: (Inr b)
    obtain vfrc idv where vb: "b = (vfrc, idv)" by (cases b)
    have idv: "idv = nearest_cell vfrc" using b unfolding vb by (rule cft_nearest_cell)
    have "bindE (support idv) (\<lambda>ivs. bindE (support idu) (\<lambda>ius.
            bindE (mapE (\<lambda>iv. bindE (convfn_lookup iv vfrc) (\<lambda>fv.
                      mapE (cft_entry nx2 ny2 ufrc fv iv) ius)) ivs) (\<lambda>rows.
            Inr (concat rows)))) \<noteq> Inl Index_out_of_bounds"
    proof (rule bindE_not_error [OF support_in_bounds], rule bindE_not_error [OF support_in_bounds],
        rule bindE_not_error)
      fix ivs ius
      assume s: "support idv = Inr ivs" "support idu = Inr ius"
      have ivs: "ivs = [idv - nmask..idv + nmask]" and ius: "ius = [idu - nmask..idu + nmask]"
        using s by (simp_all add: support_cells)
      show "mapE (\<lambda>iv. bindE (convfn_lookup iv vfrc) (\<lambda>fv.
                      mapE (cft_entry nx2 ny2 ufrc fv iv) ius)) ivs \<noteq> Inl Index_out_of_bounds"
      proof (rule mapE_not_error)
        fix iv assume iv: "iv \<in> set ivs"
        have bv: "nearest_cell vfrc - nmask \<le> iv" "iv \<le> nearest_cell vfrc + nmask"
          using iv unfolding ivs idv by simp_all
        show "bindE (convfn_lookup iv vfrc) (\<lambda>fv. mapE (cft_entry nx2 ny2 ufrc fv iv) ius)
                \<noteq> Inl Index_out_of_bounds"
          unfolding convfn_lookup_ok [OF bv] bindE_Inr
        proof (rule mapE_not_error)
          fix iu assume "iu \<in> set ius"
          then have "nearest_cell ufrc - nmask \<le> iu" "iu \<le> nearest_cell ufrc + nmask"
            unfolding ius idu by simp_all
          then show "cft_entry nx2 ny2 ufrc (convfn_at (nat (table_index iv vfrc))) iv iu
                       \<noteq> Inl Index_out_of_bounds"
            by (rule cft_entry_in_bounds)
        qed
      qed
    next
      fix ivs ius rows
      show "Inr (concat rows) \<noteq> (Inl Index_out_of_bounds :: error + (real \<times> int) list)" by simp
    qed
    then show ?thesis by (simp add: cft_row_def a ua b vb)
  qed
qed

text \<open>
  Claim C10.  Let the arrays \<open>u\<close> and \<open>v\<close> hold a coordinate for each of the \<open>nmeas\<close>
  measurements.  Then, with no restriction on the coordinates or on the parameter
  block, \<^verbatim>\<open>purify_measurement_init_cft\<close> reads no array outside its extent, the table
  \<^verbatim>\<open>convfn\<close> in particular; and for every measurement whose nearest cell \<open>idu\<close> (\<open>idv\<close>) is
  computed, every table index \<^verbatim>\<open>(int) (tgtocg * fabs(iu - ufrc) + 0.5)\<close> with
  \<open>idu - nmask \<le> iu \<le> idu + nmask\<close> (and likewise for \<open>v\<close>) is computed, lies in
  \<open>[0, NGCF)\<close>, and the table is read at it.  A coordinate whose nearest cell is not a
  value of type \<^verbatim>\<open>int\<close> ends the function at the conversion of line 309 or 310, before
  any table index is computed.
\<close>

theorem init_cft_table_reads_in_bounds:
  assumes "nmeas P \<le> int (length u)" and "nmeas P \<le> int (length v)"
  shows "purify_measurement_init_cft P u v \<noteq> Inl Index_out_of_bounds \<and>
         (\<forall>i frc idx. 0 \<le> i \<and> i < nmeas P \<and>
              (cft_nearest (u ! nat i) (umax P) (ofx P * nx1 P) = Inr (frc, idx) \<or>
               cft_nearest (v ! nat i) (vmax P) (ofy P * ny1 P) = Inr (frc, idx)) \<longrightarrow>
            (\<forall>c\<in>set [idx - nmask..idx + nmask].
               \<exists>k. convfn_index c frc = Inr k \<and> 0 \<le> k \<and> k < NGCF \<and>
                   convfn_lookup c frc = Inr (convfn ! nat k)))"
proof -
  have "mapE (\<lambda>i. bindE (load u i) (\<lambda>ui. bindE (load v i) (\<lambda>vi. cft_row P nx2 ny2 ui vi)))
          [0..nmeas P - 1] \<noteq> Inl Index_out_of_bounds" for nx2 ny2
  proof (rule mapE_not_error)
    fix i assume "i \<in> set [0..nmeas P - 1]"
    then have "0 \<le> i" "i < int (length u)" "i < int (length v)" using assms by simp_all
    then show "bindE (load u i) (\<lambda>ui. bindE (load v i) (\<lambda>vi. cft_row P nx2 ny2 ui vi))
                 \<noteq> Inl Index_out_of_bounds"
      by (simp add: load_ok cft_row_in_bounds)
  qed
  then have "purify_measurement_init_cft P u v \<noteq> Inl Index_out_of_bounds"
    unfolding purify_measurement_init_cft_def Let_def
    by (intro bindE_not_error int_chk_in_bounds) simp_all
  moreover have "\<exists>k. convfn_index c frc = Inr k \<and> 0 \<le> k \<and> k < NGCF \<and>
                   convfn_lookup c frc = Inr (convfn ! nat k)"
    if "cft_nearest ui um n2 = Inr (frc, idx)" "c \<in> set [idx - nmask..idx + nmask]"
    for ui um n2 frc idx c
  proof -
    have "idx = nearest_cell frc" using that(1) by (rule cft_nearest_cell)
    then have "nearest_cell frc - nmask \<le> c" "c \<le> nearest_cell frc + nmask"
      using that(2) by simp_all
    then show ?thesis by (rule convfn_index_in_table)
  qed
  ultimately show ?thesis by blast
qed

theorem init_cft_table_reads_in_bounds_witness:
  "nmeas P_example \<le> int (length [1 :: real]) \<and> nmeas P_example \<le> int (length [0 :: real]) \<and>
   purify_measurement_init_cft P_example [1] [0] \<noteq> Inl Index_out_of_bounds \<and>
   cft_nearest 1 (umax P_example) (ofx P_example * nx1 P_example) = Inr (1, 1) \<and>
   (\<exists>k. convfn_index 3 1 = Inr k \<and> 0 \<le> k \<and> k < NGCF \<and> convfn_lookup 3 1 = Inr (convfn ! nat k)) \<and>
   (\<exists>k. convfn_index (- 1) 1 = Inr k \<and> 0 \<le> k \<and> k < NGCF \<and>
        convfn_lookup (- 1) 1 = Inr (convfn ! nat k)) \<and>
   nmeas P_example \<le> int (length [4294967296 :: real]) \<and>
   purify_measurement_init_cft P_example [4294967296] [0] \<noteq> Inl Index_out_of_bounds \<and>
   nmeas P_one_cell \<le> int (length [4294967296 :: real]) \<and>
   nmeas P_one_cell \<le> int (length [0 :: real]) \<and>
   purify_measurement_init_cft P_one_cell [4294967296] [0] \<noteq> Inl Index_out_of_bounds \<and>
   cft_nearest 4294967296 (umax P_one_cell) (ofx P_one_cell * nx1 P_one_cell) = Inr (0, 0) \<and>
   (\<exists>k. convfn_index 2 0 = Inr k \<and> 0 \<le> k \<and> k < NGCF \<and> convfn_lookup 2 0 = Inr (convfn ! nat k))"
proof -
  have n: "cft_nearest 1 (umax P_example) (ofx P_example * nx1 P_example) = Inr (1, 1)"
    "cft_nearest 4294967296 (umax P_one_cell) (ofx P_one_cell * nx1 P_one_cell) = Inr (0, 0)"
    by (simp_all add: cft_nearest_def cft_quotient_def P_example_def P_one_cell_def c_div_def
          double_to_int_def c_int_ok_def INT_MIN_def INT_MAX_def)
  have l: "nmeas P_example \<le> int (length [1 :: real])" "nmeas P_example \<le> int (length [0 :: real])"
    "nmeas P_one_cell \<le> int (length [4294967296 :: real])"
    "nmeas P_one_cell \<le> int (length [0 :: real])"
    "nmeas P_example \<le> int (length [4294967296 :: real])"
    by (simp_all add: P_example_def P_one_cell_def)
  note a = init_cft_table_reads_in_bounds [OF l(1,2)]
  note b = init_cft_table_reads_in_bounds [OF l(3,4)]
  note c = init_cft_table_reads_in_bounds [OF l(5,2)]
  have a': "\<forall>c\<in>set [1 - nmask..1 + nmask].
      \<exists>k. convfn_index c 1 = Inr k \<and> 0 \<le> k \<and> k < NGCF \<and> convfn_lookup c 1 = Inr (convfn ! nat k)"
    using a [THEN conjunct2, rule_format, of 0 1 1] n(1) by (simp add: P_example_def)
  have b': "\<forall>c\<in>set [0 - nmask..0 + nmask].
      \<exists>k. convfn_index c 0 = Inr k \<and> 0 \<le> k \<and> k < NGCF \<and> convfn_lookup c 0 = Inr (convfn ! nat k)"
    using b [THEN conjunct2, rule_format, of 0 0 0] n(2) by (simp add: P_one_cell_def)
  have "\<exists>k. convfn_index 3 1 = Inr k \<and> 0 \<le> k \<and> k < NGCF \<and> convfn_lookup 3 1 = Inr (convfn ! nat k)"
    using a' [rule_format, of 3] by (simp add: nmask_def)
  moreover have "\<exists>k. convfn_index (- 1) 1 = Inr k \<and> 0 \<le> k \<and> k < NGCF \<and>
        convfn_lookup (- 1) 1 = Inr (convfn ! nat k)"
    using a' [rule_format, of "- 1"] by (simp add: nmask_def)
  moreover have "\<exists>k. convfn_index 2 0 = Inr k \<and> 0 \<le> k \<and> k < NGCF \<and> convfn_lookup 2 0 = Inr (convfn ! nat k)"
    using b' [rule_format, of 2] by (simp add: nmask_def)
  ultimately show ?thesis
    using n l a [THEN conjunct1] b [THEN conjunct1] c [THEN conjunct1] by blast
qed

section \<open>Loops\<close>

lemma upto_conv_upt: "[0..n - 1] = map int [0..<nat n]"
proof (cases "0 \<le> n")
  case True
  define k where "k = nat n"
  have n: "n = int k" using True by (simp add: k_def)
  have "[0..int k - 1] = map int [0..<k]"
  proof (induction k)
    case 0
    then show ?case by simp
  next
    case (Suc k)
    have "[0..int (Suc k) - 1] = [0..int k - 1] @ [int k]"
      using upto_rec2 [of 0 "int k"] by simp
    then show ?case using Suc by simp
  qed
  then show ?thesis by (simp add: n)
next
  case False
  then show ?thesis by simp
qed

lemma mapE_map_list: "mapE f (map g xs) = mapE (\<lambda>a. f (g a)) xs"
  by (induction xs) simp_all

lemma foldE_map_list: "foldE f (map g xs) s = foldE (\<lambda>a. f (g a)) xs s"
  by (induction xs arbitrary: s) (simp_all add: bindE_def split: sum.splits)

lemma foldE_fold:
  assumes "\<And>a s. a \<in> set as \<Longrightarrow> I s \<Longrightarrow> f a s = Inr (g a s) \<and> I (g a s)" and "I s"
  shows "foldE f as s = Inr (fold g as s) \<and> I (fold g as s)"
  using assms
proof (induction as arbitrary: s)
  case Nil
  then show ?case by simp
next
  case (Cons a as)
  have st: "f a s = Inr (g a s)" "I (g a s)"
    using Cons.prems(1) [of a s] Cons.prems(2) by simp_all
  have "foldE f as (g a s) = Inr (fold g as (g a s)) \<and> I (fold g as (g a s))"
    using Cons.prems(1) st(2) by (intro Cons.IH) simp_all
  then show ?case by (simp add: st(1))
qed

lemma fold_rows:
  "fold (\<lambda>j. fold (\<lambda>i. h (j * n + i)) [0..<n]) [0..<m] = fold h [0..<m * n]"
proof (induction m)
  case 0
  then show ?case by simp
next
  case (Suc m)
  have "[0..<m * n + n] = [0..<m * n] @ [m * n..<m * n + n]"
    by (rule upt_add_eq_append) simp
  also have "[m * n..<m * n + n] = map (\<lambda>i. m * n + i) [0..<n]"
    by (simp add: map_add_upt add.commute)
  finally have "[0..<Suc m * n] = [0..<m * n] @ map (\<lambda>i. m * n + i) [0..<n]"
    by (simp add: add.commute)
  then have "fold h [0..<Suc m * n] = fold (\<lambda>i. h (m * n + i)) [0..<n] \<circ> fold h [0..<m * n]"
    by (simp add: fold_map comp_def)
  then show ?case using Suc by simp
qed

lemma concat_rows:
  "concat (map (\<lambda>j. map (\<lambda>i. F (j * n + i)) [0..<n]) [0..<m]) = map F [0..<m * n]"
proof (induction m)
  case 0
  then show ?case by simp
next
  case (Suc m)
  have "[0..<m * n + n] = [0..<m * n] @ [m * n..<m * n + n]"
    by (rule upt_add_eq_append) simp
  also have "[m * n..<m * n + n] = map (\<lambda>i. m * n + i) [0..<n]"
    by (simp add: map_add_upt add.commute)
  finally have "[0..<Suc m * n] = [0..<m * n] @ map (\<lambda>i. m * n + i) [0..<n]"
    by (simp add: add.commute)
  then show ?case using Suc by (simp add: comp_def)
qed

lemma length_fold_update:
  "length (fold (\<lambda>a t. t[w a := val a]) as t) = length t"
  by (induction as arbitrary: t) simp_all

lemma fold_update_other:
  "k \<notin> w ` set as \<Longrightarrow> fold (\<lambda>a t. t[w a := val a]) as t ! k = t ! k"
  by (induction as arbitrary: t) simp_all

lemma fold_update_written:
  assumes "distinct (map w as)" "a \<in> set as" "w a < length t"
  shows "fold (\<lambda>a t. t[w a := val a]) as t ! w a = val a"
  using assms
proof (induction as arbitrary: t)
  case Nil
  then show ?case by simp
next
  case (Cons b bs)
  show ?case
  proof (cases "a = b")
    case True
    have "w b \<notin> w ` set bs" using Cons.prems(1) by simp
    then have "fold (\<lambda>a t. t[w a := val a]) bs (t[w b := val b]) ! w b = t[w b := val b] ! w b"
      by (rule fold_update_other)
    then show ?thesis using True Cons.prems(3) by simp
  next
    case False
    then have "a \<in> set bs" using Cons.prems(2) by simp
    then show ?thesis using Cons.prems Cons.IH [of "t[w b := val b]"] by simp
  qed
qed

section \<open>Adjoint pairs among the collaborators\<close>


lemma dft_phase_swap: "dft_phase m0 m1 (- s) j0 j1 k0 k1 = - dft_phase m0 m1 s k0 k1 j0 j1"
  by (simp add: dft_phase_def mult.commute)

lemma cis_phase_neg:
  "cis (dft_phase m0 m1 (- s) j0 j1 k0 k1) = cnj (cis (dft_phase m0 m1 s k0 k1 j0 j1))"
  by (simp add: dft_phase_swap cis_cnj)

lemma length_fftw_execute_dft:
  "fftw_execute_dft p xs = Inr ys \<Longrightarrow> length ys = length xs"
  by (auto simp add: fftw_execute_dft_def Let_def split: if_splits)

lemma fftw_execute_dft_nth:
  assumes "length xs = plan_n0 p * plan_n1 p" "k < length xs"
  shows "\<exists>ys. fftw_execute_dft p xs = Inr ys \<and> length ys = length xs \<and>
           ys ! k = (\<Sum>j<length xs. xs ! j *
              cis (dft_phase (plan_n0 p) (plan_n1 p) (plan_sign p) (k div plan_n1 p) (k mod plan_n1 p)
                     (j div plan_n1 p) (j mod plan_n1 p)))"
  using assms by (simp add: fftw_execute_dft_def Let_def)

lemma fftw_execute_dft_adjoint:
  assumes la: "length a = plan_n0 p * plan_n1 p" and lb: "length b = plan_n0 p * plan_n1 p"
    and fa: "fftw_execute_dft p a = Inr a'"
    and fb: "fftw_execute_dft (p\<lparr>plan_sign := - plan_sign p\<rparr>) b = Inr b'"
  shows "cinner a' b = cinner a b'"
proof -
  define N where "N = plan_n0 p * plan_n1 p"
  define W where "W k j = cis (dft_phase (plan_n0 p) (plan_n1 p) (plan_sign p)
      (k div plan_n1 p) (k mod plan_n1 p) (j div plan_n1 p) (j mod plan_n1 p))" for k j
  have a': "a' = map (\<lambda>k. \<Sum>j<N. a ! j * W k j) [0..<N]"
    using fa la by (simp add: fftw_execute_dft_def Let_def N_def W_def)
  have b': "b' = map (\<lambda>j. \<Sum>k<N. b ! k * cnj (W k j)) [0..<N]"
    using fb lb by (simp add: fftw_execute_dft_def Let_def N_def W_def cis_phase_neg)
  have "cinner a' b = (\<Sum>k<N. (\<Sum>j<N. a ! j * W k j) * cnj (b ! k))"
    by (simp add: cinner_def a')
  also have "\<dots> = (\<Sum>k<N. \<Sum>j<N. a ! j * W k j * cnj (b ! k))"
    by (simp add: sum_distrib_right)
  also have "\<dots> = (\<Sum>j<N. \<Sum>k<N. a ! j * W k j * cnj (b ! k))"
    by (rule sum.swap)
  also have "\<dots> = (\<Sum>j<N. a ! j * cnj (\<Sum>k<N. b ! k * cnj (W k j)))"
    by (simp add: sum_distrib_left mult_ac)
  also have "\<dots> = cinner a b'"
    using la by (simp add: cinner_def b' N_def)
  finally show ?thesis .
qed


lemma fftshift_index_less:
  assumes "0 < n" "0 < m" "k < n * m"
  shows "fftshift_index n m k < n * m"
proof -
  have "(k div n + m div 2) mod m < m" using assms by simp
  then have "((k div n + m div 2) mod m) * n + n \<le> m * n"
    by (metis Suc_leI mult_Suc mult_le_mono1 add.commute)
  moreover have "(k mod n + n div 2) mod n < n" using assms by simp
  ultimately show ?thesis by (simp add: fftshift_index_def mult.commute)
qed

lemma half_shift_twice:
  fixes r m :: nat
  assumes "even m" "r < m"
  shows "((r + m div 2) mod m + m div 2) mod m = r"
proof -
  have "((r + m div 2) mod m + m div 2) mod m = (r + m div 2 + m div 2) mod m"
    by (simp add: mod_add_left_eq)
  also have "r + m div 2 + m div 2 = r + m" using assms(1) by auto
  finally show ?thesis using assms(2) by simp
qed

lemma fftshift_index_involution:
  assumes "even n" "even m" "0 < n" "k < n * m"
  shows "fftshift_index n m (fftshift_index n m k) = k"
proof -
  define r where "r = (k div n + m div 2) mod m"
  define c where "c = (k mod n + n div 2) mod n"
  have c: "c < n" using assms(3) by (simp add: c_def)
  have kr: "k div n < m" using assms(3,4) by (simp add: less_mult_imp_div_less mult.commute)
  have s: "fftshift_index n m k = r * n + c"
    by (simp add: fftshift_index_def r_def c_def)
  have d: "(r * n + c) div n = r" and md: "(r * n + c) mod n = c"
    using c by simp_all
  have "fftshift_index n m (r * n + c) = ((r + m div 2) mod m) * n + (c + n div 2) mod n"
    by (simp only: fftshift_index_def d md)
  also have "(r + m div 2) mod m = k div n"
    unfolding r_def using half_shift_twice [OF assms(2) kr] .
  also have "(c + n div 2) mod n = k mod n"
    unfolding c_def using half_shift_twice [OF assms(1), of "k mod n"] assms(3) by simp
  finally show ?thesis by (simp add: s)
qed

lemma fftshift_nth:
  assumes "0 \<le> n" "0 \<le> m" "int (length xs) = n * m"
  shows "purify_utils_fftshift_2d_c xs n m =
           Inr (map (\<lambda>k. xs ! fftshift_index (nat n) (nat m) k) [0..<length xs])"
proof -
  have "nat (n * m) = length xs" using assms(3) by (metis nat_int)
  then show ?thesis using assms by (simp add: purify_utils_fftshift_2d_c_def)
qed

lemma fftshift_adjoint:
  assumes n: "0 < n" "even n" and m: "0 < m" "even m"
    and la: "int (length a) = n * m" and lb: "int (length b) = n * m"
    and sa: "purify_utils_fftshift_2d_c a n m = Inr a'"
    and sb: "purify_utils_fftshift_2d_c b n m = Inr b'"
  shows "cinner a' b = cinner a b'"
proof -
  define N where "N = nat n * nat m"
  define \<sigma> where "\<sigma> = fftshift_index (nat n) (nat m)"
  have N: "length a = N" "length b = N"
    using la lb n m by (simp_all add: N_def nat_mult_distrib [symmetric])
  have ev: "even (nat n)" "even (nat m)" "0 < nat n" "0 < nat m"
    using n m by (simp_all add: even_nat_iff)
  have a': "a' = map (\<lambda>k. a ! \<sigma> k) [0..<N]"
    using sa fftshift_nth [of n m a] la n m N by (simp add: \<sigma>_def)
  have b': "b' = map (\<lambda>k. b ! \<sigma> k) [0..<N]"
    using sb fftshift_nth [of n m b] lb n m N by (simp add: \<sigma>_def)
  have lt: "\<sigma> k < N" if "k < N" for k
    unfolding \<sigma>_def N_def using fftshift_index_less [OF ev(3,4)] that by (simp add: N_def)
  have inv: "\<sigma> (\<sigma> k) = k" if "k < N" for k
    unfolding \<sigma>_def using fftshift_index_involution [OF ev(1,2,3)] that by (simp add: N_def)
  have "cinner a' b = (\<Sum>k<N. a ! \<sigma> k * cnj (b ! k))"
    by (simp add: cinner_def a')
  also have "\<dots> = (\<Sum>k<N. a ! k * cnj (b ! \<sigma> k))"
    by (rule sum.reindex_bij_witness [of _ \<sigma> \<sigma>]) (simp_all add: lt inv)
  also have "\<dots> = cinner a b'"
    by (simp add: cinner_def b' N)
  finally show ?thesis .
qed


lemma rowptr_mono:
  assumes "list_all (\<lambda>r. (p :: int list) ! r \<le> p ! Suc r) [0..<n]" "i \<le> k" "k \<le> n"
  shows "p ! i \<le> p ! k"
  using assms(2,3)
proof (induction k)
  case 0
  then show ?case by simp
next
  case (Suc k)
  show ?case
  proof (cases "i = Suc k")
    case True
    then show ?thesis by simp
  next
    case False
    then have "i \<le> k" using Suc.prems by simp
    then have "p ! i \<le> p ! k" using Suc by simp
    moreover have "p ! k \<le> p ! Suc k"
      using assms(1) Suc.prems by (simp add: list_all_iff)
    ultimately show ?thesis by simp
  qed
qed

lemma sparsemat_entry_range:
  assumes ok: "sparsemat_ok A" and r: "r < nat (nrows A)"
    and j: "j \<in> {nat (rowptr A ! r)..<nat (rowptr A ! Suc r)}"
  shows "j < length (colind A)" and "nat (colind A ! j) < nat (ncols A)"
proof -
  have mono: "list_all (\<lambda>r. rowptr A ! r \<le> rowptr A ! Suc r) [0..<nat (nrows A)]"
    using ok by (simp add: sparsemat_ok_def)
  have "rowptr A ! Suc r \<le> rowptr A ! nat (nrows A)"
    using rowptr_mono [OF mono, of "Suc r" "nat (nrows A)"] r by simp
  then have "rowptr A ! Suc r \<le> int (length (colind A))"
    using ok by (simp add: sparsemat_ok_def)
  then show l: "j < length (colind A)" using j by auto
  have "0 \<le> colind A ! j \<and> colind A ! j < ncols A"
    using ok l by (simp add: sparsemat_ok_def list_all_length)
  then show "nat (colind A ! j) < nat (ncols A)" by simp
qed

lemma sparsemat_adjoint:
  assumes ok: "sparsemat_ok A"
    and lx: "int (length xs) = ncols A" and ly: "int (length ys) = nrows A"
    and f: "purify_sparsemat_fwd_complexr xs A = Inr fx"
    and g: "purify_sparsemat_adj_complexr ys A = Inr gy"
  shows "cinner fx ys = cinner xs gy"
proof -
  define R where "R = nat (nrows A)"
  define C where "C = nat (ncols A)"
  define J where "J r = {nat (rowptr A ! r)..<nat (rowptr A ! Suc r)}" for r
  define v where "v j = complex_of_real (vals A ! j)" for j
  define c where "c j = nat (colind A ! j)" for j
  have len: "length xs = C" "length ys = R"
    using lx ly by (simp_all add: R_def C_def)
  have fx: "fx = map (\<lambda>r. \<Sum>j\<in>J r. v j * xs ! c j) [0..<R]"
    using f ok lx by (simp add: purify_sparsemat_fwd_complexr_def R_def J_def v_def c_def)
  have gy: "gy = map (\<lambda>k. \<Sum>r<R. \<Sum>j\<in>J r. (if c j = k then v j * ys ! r else 0)) [0..<C]"
    using g ok ly by (simp add: purify_sparsemat_adj_complexr_def R_def C_def J_def v_def c_def cong: if_cong)
  have cr: "c j < C" if "r < R" "j \<in> J r" for r j
    using sparsemat_entry_range(2) [OF ok, of r j] that by (simp add: R_def C_def J_def c_def)
  have cv: "cnj (v j) = v j" for j by (simp add: v_def)
  have "cinner xs gy = (\<Sum>k<C. xs ! k * cnj (\<Sum>r<R. \<Sum>j\<in>J r. (if c j = k then v j * ys ! r else 0)))"
    by (simp add: cinner_def gy len)
  also have "\<dots> = (\<Sum>k<C. \<Sum>r<R. \<Sum>j\<in>J r. (if c j = k then xs ! k * v j * cnj (ys ! r) else 0))"
    by (simp add: cnj_sum sum_distrib_left cv if_distrib [of cnj] if_distrib [of "\<lambda>z. _ * z"] mult.assoc
          cong: if_cong)
  also have "\<dots> = (\<Sum>r<R. \<Sum>k<C. \<Sum>j\<in>J r. (if c j = k then xs ! k * v j * cnj (ys ! r) else 0))"
    by (rule sum.swap)
  also have "\<dots> = (\<Sum>r<R. \<Sum>j\<in>J r. \<Sum>k<C. (if c j = k then xs ! k * v j * cnj (ys ! r) else 0))"
    by (intro sum.cong refl sum.swap)
  also have "\<dots> = (\<Sum>r<R. \<Sum>j\<in>J r. xs ! c j * v j * cnj (ys ! r))"
  proof (intro sum.cong refl)
    fix r j assume "r \<in> {..<R}" "j \<in> J r"
    then have "c j \<in> {..<C}" using cr by simp
    then show "(\<Sum>k<C. (if c j = k then xs ! k * v j * cnj (ys ! r) else 0)) = xs ! c j * v j * cnj (ys ! r)"
      by (simp add: sum.delta')
  qed
  also have "\<dots> = (\<Sum>r<R. \<Sum>j\<in>J r. (v j * xs ! c j) * cnj (ys ! r))"
    by (simp add: mult_ac)
  also have "\<dots> = (\<Sum>r<R. (\<Sum>j\<in>J r. v j * xs ! c j) * cnj (ys ! r))"
    by (simp only: sum_distrib_right)
  also have "\<dots> = cinner fx ys"
    by (simp add: cinner_def fx)
  finally show ?thesis by simp
qed


section \<open>Zero padding and cropping\<close>

lemma cft_pad_pixel_ok:
  assumes "0 \<le> st1 + i" "st1 + i < int (length xin)" "st1 + i < int (length dec)"
    and "0 \<le> st2 + i + npadx" "st2 + i + npadx < int (length temp)"
  shows "cft_pad_pixel st1 st2 npadx scale xin dec i temp =
           Inr (temp[nat (st2 + i + npadx) :=
                  xin ! nat (st1 + i) * complex_of_real scale * complex_of_real (dec ! nat (st1 + i))])"
  using assms by (simp add: cft_pad_pixel_def load_def store_def)

lemma cft_crop_pixel_ok:
  assumes "0 \<le> st1 + i" "st1 + i < int (length dec)"
    and "0 \<le> st2 + i + npadx" "st2 + i + npadx < int (length temp)"
  shows "cft_crop_pixel st1 st2 npadx scale temp dec i =
           Inr (temp ! nat (st2 + i + npadx) * complex_of_real scale * complex_of_real (dec ! nat (st1 + i)))"
  using assms by (simp add: cft_crop_pixel_def load_def)

lemma window_bounds:
  assumes ok: "cft_window_ok P" and j: "0 \<le> j" "j < ny1 P" and i: "0 \<le> i" "i < nx1 P"
  shows "0 \<le> (j + (ofy P * ny1 P) div 4) * (ofx P * nx1 P) + i + (ofx P * nx1 P) div 4"
    and "(j + (ofy P * ny1 P) div 4) * (ofx P * nx1 P) + i + (ofx P * nx1 P) div 4
           < ofx P * nx1 P * (ofy P * ny1 P)"
proof -
  define nx2 where "nx2 = ofx P * nx1 P"
  define py where "py = (ofy P * ny1 P) div 4"
  define px where "px = nx2 div 4"
  have nx2: "0 < nx2"
    using ok unfolding cft_window_ok_def nx2_def by linarith
  have py: "0 \<le> py" and px: "0 \<le> px"
    using ok nx2 by (simp_all add: cft_window_ok_def py_def px_def pos_imp_zdiv_nonneg_iff)
  have last: "(ny1 P - 1 + py) * nx2 + (nx1 P - 1) + px < nx2 * (ofy P * ny1 P)"
    using ok by (simp add: cft_window_ok_def nx2_def py_def px_def)
  have "0 \<le> (j + py) * nx2" using j py nx2 by simp
  then show "0 \<le> (j + (ofy P * ny1 P) div 4) * (ofx P * nx1 P) + i + (ofx P * nx1 P) div 4"
    using i px by (simp add: nx2_def py_def px_def)
  have "(j + py) * nx2 \<le> (ny1 P - 1 + py) * nx2"
    using j nx2 by (intro mult_right_mono) simp_all
  then have "(j + py) * nx2 + i + px < nx2 * (ofy P * ny1 P)"
    using last i by linarith
  then show "(j + (ofy P * ny1 P) div 4) * (ofx P * nx1 P) + i + (ofx P * nx1 P) div 4
           < ofx P * nx1 P * (ofy P * ny1 P)"
    by (simp add: nx2_def py_def px_def)
qed

lemma window_index_row:
  assumes "0 < nx1 P" "i < nat (nx1 P)"
  shows "window_index P (j * nat (nx1 P) + i) =
           nat ((int j + (ofy P * ny1 P) div 4) * (ofx P * nx1 P) + int i + (ofx P * nx1 P) div 4)"
proof -
  have m: "int (j * nat (nx1 P) + i) = int j * nx1 P + int i"
    using assms by simp
  have "(int j * nx1 P + int i) div nx1 P = int j"
    using assms ixiy2ind_div [of "int j" "int i" "nx1 P"] by simp
  moreover have "(int j * nx1 P + int i) mod nx1 P = int i"
    using assms by simp
  ultimately show ?thesis
    by (simp only: window_index_def m)
qed

lemma cell_of_pixel:
  assumes "0 < nx1 P" "m < nat (ny1 P) * nat (nx1 P)"
  shows "m div nat (nx1 P) < nat (ny1 P)" and "m mod nat (nx1 P) < nat (nx1 P)"
    and "m = (m div nat (nx1 P)) * nat (nx1 P) + m mod nat (nx1 P)"
  using assms by (simp_all add: less_mult_imp_div_less)

lemma window_index_less:
  assumes ok: "cft_window_ok P" and m: "m < nat (ny1 P) * nat (nx1 P)"
  shows "window_index P m < nat (ofx P * nx1 P * (ofy P * ny1 P))"
proof -
  have pos: "0 < nx1 P" using ok by (simp add: cft_window_ok_def)
  note c = cell_of_pixel [OF pos m]
  have w: "window_index P m =
      nat ((int (m div nat (nx1 P)) + (ofy P * ny1 P) div 4) * (ofx P * nx1 P) +
           int (m mod nat (nx1 P)) + (ofx P * nx1 P) div 4)"
    using window_index_row [OF pos c(2), of "m div nat (nx1 P)"] c(3) by simp
  have up: "(int (m div nat (nx1 P)) + (ofy P * ny1 P) div 4) * (ofx P * nx1 P) +
           int (m mod nat (nx1 P)) + (ofx P * nx1 P) div 4 < ofx P * nx1 P * (ofy P * ny1 P)"
    using c(1,2) by (intro window_bounds(2) [OF ok]) simp_all
  have lo: "0 \<le> (int (m div nat (nx1 P)) + (ofy P * ny1 P) div 4) * (ofx P * nx1 P) +
           int (m mod nat (nx1 P)) + (ofx P * nx1 P) div 4"
    using c(1,2) by (intro window_bounds(1) [OF ok]) simp_all
  have "0 < ofx P * nx1 P * (ofy P * ny1 P)" using lo up by linarith
  then show ?thesis unfolding w using up by (simp only: nat_mono_iff)
qed

lemma window_index_inj:
  assumes ok: "cft_window_ok P"
  shows "inj_on (window_index P) {..<nat (ny1 P) * nat (nx1 P)}"
proof (rule inj_onI)
  fix a b
  assume a: "a \<in> {..<nat (ny1 P) * nat (nx1 P)}" and b: "b \<in> {..<nat (ny1 P) * nat (nx1 P)}"
    and e: "window_index P a = window_index P b"
  define n where "n = nat (nx1 P)"
  define nx2 where "nx2 = ofx P * nx1 P"
  define py where "py = (ofy P * ny1 P) div 4"
  define px where "px = nx2 div 4"
  have pos: "0 < nx1 P" and le: "nx1 P \<le> nx2"
    using ok by (simp_all add: cft_window_ok_def nx2_def)
  have nx2: "0 < nx2" using pos le by simp
  have px: "0 \<le> px" and py: "0 \<le> py"
    using ok nx2 by (simp_all add: cft_window_ok_def px_def py_def pos_imp_zdiv_nonneg_iff)
  have a': "a < nat (ny1 P) * nat (nx1 P)" and b': "b < nat (ny1 P) * nat (nx1 P)"
    using a b by simp_all
  note ca = cell_of_pixel [OF pos a'] and cb = cell_of_pixel [OF pos b']
  have nn: "int n = nx1 P" using pos by (simp add: n_def)
  define ja ia jb ib where "ja = int (a div n)" and "ia = int (a mod n)"
    and "jb = int (b div n)" and "ib = int (b mod n)"
  have "a mod n < n" "b mod n < n"
    using ca(2) cb(2) by (simp_all add: n_def)
  then have "ia < int n" "ib < int n"
    unfolding ia_def ib_def by (simp_all only: of_nat_less_iff)
  then have ra: "0 \<le> ia" "ia < nx2" "0 \<le> ja" and rb: "0 \<le> ib" "ib < nx2" "0 \<le> jb"
    using le nn by (simp_all add: ia_def ib_def ja_def jb_def)
  have wa: "window_index P a = nat ((ja + py) * nx2 + ia + px)"
    using window_index_row [OF pos ca(2), of "a div n"] ca(3) a
    by (simp add: n_def ja_def ia_def py_def px_def nx2_def)
  have wb: "window_index P b = nat ((jb + py) * nx2 + ib + px)"
    using window_index_row [OF pos cb(2), of "b div n"] cb(3) b
    by (simp add: n_def jb_def ib_def py_def px_def nx2_def)
  have "0 \<le> (ja + py) * nx2 + ia + px" "0 \<le> (jb + py) * nx2 + ib + px"
    using ra rb px py nx2 by simp_all
  then have eq: "(ja + py) * nx2 + ia = (jb + py) * nx2 + ib"
    using e unfolding wa wb by simp
  have "((ja + py) * nx2 + ia) div nx2 = ja + py" "((jb + py) * nx2 + ib) div nx2 = jb + py"
    using ra rb py by (simp_all add: ixiy2ind_div)
  then have j: "ja = jb" using eq by simp
  then have i: "ia = ib" using eq by simp
  have "a = a div n * n + a mod n" "b = b div n * n + b mod n" by simp_all
  then show "a = b"
    using i j unfolding ja_def jb_def ia_def ib_def by (metis of_nat_eq_iff)
qed

lemma cft_zero_pad_ok:
  assumes ok: "cft_window_ok P"
    and lx: "nx1 P * ny1 P \<le> int (length xin)" and ld: "nx1 P * ny1 P \<le> int (length dec)"
  shows "cft_zero_pad P dec xin = Inr (padded_image P dec xin)"
proof -
  define n where "n = nat (nx1 P)"
  define m where "m = nat (ny1 P)"
  define nx2 where "nx2 = ofx P * nx1 P"
  define ny2 where "ny2 = ofy P * ny1 P"
  define N where "N = nat (nx2 * ny2)"
  define h where "h k t = t[window_index P k :=
      xin ! k * complex_of_real (cft_scale P) * complex_of_real (dec ! k)]" for k and t :: "complex list"
  have pos: "0 < nx1 P" "0 < ny1 P" and nn: "0 \<le> nx2" "0 \<le> ny2"
    using ok by (simp_all add: cft_window_ok_def nx2_def ny2_def)
  have nm: "int n = nx1 P" "int m = ny1 P" using pos by (simp_all add: n_def m_def)
  have len: "int (m * n) \<le> int (length xin)" "int (m * n) \<le> int (length dec)"
    using lx ld by (simp_all add: nm mult.commute)
  have cd: "c_div nx2 4 = nx2 div 4" "c_div ny2 4 = ny2 div 4"
    using nn by (simp_all add: c_div_4)
  have pixel: "cft_pad_pixel (int j * nx1 P) ((int j + ny2 div 4) * nx2) (nx2 div 4) (cft_scale P)
                  xin dec (int i) t = Inr (h (j * n + i) t) \<and> length (h (j * n + i) t) = N"
    if j: "j < m" and i: "i < n" and t: "length t = N" for j i t
  proof -
    have "j * n + i < m * n"
    proof -
      have "j * n + i < (j + 1) * n" using i by simp
      also have "\<dots> \<le> m * n" using j by (intro mult_le_mono1) simp
      finally show ?thesis .
    qed
    then have "int (j * n + i) < int (length xin)" "int (j * n + i) < int (length dec)"
      using len by linarith+
    then have b: "int j * nx1 P + int i < int (length xin)" "int j * nx1 P + int i < int (length dec)"
      by (simp_all add: nm [symmetric])
    have w: "window_index P (j * n + i) = nat ((int j + ny2 div 4) * nx2 + int i + nx2 div 4)"
      using window_index_row [OF pos(1), of i j] i by (simp add: n_def nx2_def ny2_def)
    have wb: "0 \<le> (int j + ny2 div 4) * nx2 + int i + nx2 div 4"
      "(int j + ny2 div 4) * nx2 + int i + nx2 div 4 < int (length t)"
      using window_bounds [OF ok, of "int j" "int i"] j i nm nn t
      by (simp_all add: nx2_def ny2_def N_def)
    have n0: "0 \<le> int j * nx1 P + int i" using pos by simp
    have st: "nat (int j * nx1 P + int i) = j * n + i"
      by (simp add: nm [symmetric] nat_add_distrib nat_mult_distrib)
    show ?thesis
      using cft_pad_pixel_ok [OF n0 b wb, of "cft_scale P"] t
      by (simp add: h_def w st)
  qed
  have inner: "foldE (\<lambda>i. cft_pad_pixel (int j * nx1 P) ((int j + ny2 div 4) * nx2) (nx2 div 4)
                 (cft_scale P) xin dec (int i)) [0..<n] t
        = Inr (fold (\<lambda>i. h (j * n + i)) [0..<n] t) \<and> length (fold (\<lambda>i. h (j * n + i)) [0..<n] t) = N"
    if j: "j < m" and t: "length t = N" for j t
    by (rule foldE_fold [where I = "\<lambda>t. length t = N"]) (use pixel j t in simp_all)
  have outer: "foldE (\<lambda>j. foldE (\<lambda>i. cft_pad_pixel (int j * nx1 P) ((int j + ny2 div 4) * nx2)
                  (nx2 div 4) (cft_scale P) xin dec (int i)) [0..<n]) [0..<m] (replicate N 0)
        = Inr (fold (\<lambda>j. fold (\<lambda>i. h (j * n + i)) [0..<n]) [0..<m] (replicate N 0)) \<and>
          length (fold (\<lambda>j. fold (\<lambda>i. h (j * n + i)) [0..<n]) [0..<m] (replicate N 0)) = N"
    by (rule foldE_fold [where I = "\<lambda>t. length t = N"]) (use inner in simp_all)
  have "cft_zero_pad P dec xin =
      foldE (\<lambda>j. foldE (\<lambda>i. cft_pad_pixel (int j * nx1 P) ((int j + ny2 div 4) * nx2)
                  (nx2 div 4) (cft_scale P) xin dec (int i)) [0..<n]) [0..<m] (replicate N 0)"
    unfolding cft_zero_pad_def Let_def nx2_def [symmetric] ny2_def [symmetric] cd
      upto_conv_upt foldE_map_list n_def m_def N_def ..
  also have "\<dots> = Inr (fold h [0..<m * n] (replicate N 0))"
    using outer by (simp add: fold_rows)
  also have "fold h [0..<m * n] (replicate N 0) = padded_image P dec xin"
    unfolding padded_image_def h_def m_def n_def N_def nx2_def ny2_def ..
  finally show ?thesis .
qed


lemma padded_image_length:
  "length (padded_image P dec xin) = nat (ofx P * nx1 P * (ofy P * ny1 P))"
  by (simp add: padded_image_def length_fold_update)

lemma padded_image_window:
  assumes ok: "cft_window_ok P" and m: "m < nat (ny1 P) * nat (nx1 P)"
  shows "padded_image P dec xin ! window_index P m =
           xin ! m * complex_of_real (cft_scale P) * complex_of_real (dec ! m)"
proof -
  have d: "distinct (map (window_index P) [0..<nat (ny1 P) * nat (nx1 P)])"
    using window_index_inj [OF ok] by (simp add: distinct_map atLeast_upt [symmetric] lessThan_atLeast0)
  have w: "window_index P m < length (replicate (nat (ofx P * nx1 P * (ofy P * ny1 P))) (0 :: complex))"
    using window_index_less [OF ok m] by simp
  show ?thesis
    unfolding padded_image_def
    using fold_update_written [OF d _ w,
        of "\<lambda>m. xin ! m * complex_of_real (cft_scale P) * complex_of_real (dec ! m)"] m
    by simp
qed

lemma padded_image_outside:
  assumes "k \<notin> window_index P ` {..<nat (ny1 P) * nat (nx1 P)}"
    and "k < nat (ofx P * nx1 P * (ofy P * ny1 P))"
  shows "padded_image P dec xin ! k = 0"
proof -
  have "k \<notin> window_index P ` set [0..<nat (ny1 P) * nat (nx1 P)]"
    using assms(1) by (simp add: atLeast_upt [symmetric] lessThan_atLeast0)
  then show ?thesis
    unfolding padded_image_def using assms(2) by (simp add: fold_update_other)
qed

lemma cft_crop_ok:
  assumes ok: "cft_window_ok P"
    and lt: "ofx P * nx1 P * (ofy P * ny1 P) \<le> int (length temp)"
    and ld: "nx1 P * ny1 P \<le> int (length dec)"
  shows "cft_crop P dec temp = Inr (cropped_image P dec temp)"
proof -
  define n where "n = nat (nx1 P)"
  define m where "m = nat (ny1 P)"
  define nx2 where "nx2 = ofx P * nx1 P"
  define ny2 where "ny2 = ofy P * ny1 P"
  define F where "F k = temp ! window_index P k * complex_of_real (cft_scale P) *
      complex_of_real (dec ! k)" for k
  have pos: "0 < nx1 P" "0 < ny1 P" and nn: "0 \<le> nx2" "0 \<le> ny2"
    using ok by (simp_all add: cft_window_ok_def nx2_def ny2_def)
  have nm: "int n = nx1 P" "int m = ny1 P" using pos by (simp_all add: n_def m_def)
  have len: "int (m * n) \<le> int (length dec)"
    using ld by (simp add: nm mult.commute)
  have cd: "c_div nx2 4 = nx2 div 4" "c_div ny2 4 = ny2 div 4"
    using nn by (simp_all add: c_div_4)
  have pixel: "cft_crop_pixel (int j * nx1 P) ((int j + ny2 div 4) * nx2) (nx2 div 4) (cft_scale P)
                  temp dec (int i) = Inr (F (j * n + i))"
    if j: "j \<in> set [0..<m]" and i: "i \<in> set [0..<n]" for j i
  proof -
    have "j * n + i < m * n"
    proof -
      have "j * n + i < (j + 1) * n" using i by simp
      also have "\<dots> \<le> m * n" using j by (intro mult_le_mono1) simp
      finally show ?thesis .
    qed
    then have "int (j * n + i) < int (length dec)"
      using len by linarith
    then have b: "int j * nx1 P + int i < int (length dec)"
      by (simp add: nm [symmetric])
    have w: "window_index P (j * n + i) = nat ((int j + ny2 div 4) * nx2 + int i + nx2 div 4)"
      using window_index_row [OF pos(1), of i j] i by (simp add: n_def nx2_def ny2_def)
    have wb: "0 \<le> (int j + ny2 div 4) * nx2 + int i + nx2 div 4"
      "(int j + ny2 div 4) * nx2 + int i + nx2 div 4 < int (length temp)"
      using window_bounds [OF ok, of "int j" "int i"] j i nm lt
      by (simp_all add: nx2_def ny2_def)
    have n0: "0 \<le> int j * nx1 P + int i" using pos by simp
    have st: "nat (int j * nx1 P + int i) = j * n + i"
      by (simp add: nm [symmetric] nat_add_distrib nat_mult_distrib)
    show ?thesis
      using cft_crop_pixel_ok [OF n0 b wb, of "cft_scale P"]
      by (simp add: F_def w st)
  qed
  have inner: "mapE (\<lambda>i. cft_crop_pixel (int j * nx1 P) ((int j + ny2 div 4) * nx2) (nx2 div 4)
                 (cft_scale P) temp dec (int i)) [0..<n] = Inr (map (\<lambda>i. F (j * n + i)) [0..<n])"
    if j: "j \<in> set [0..<m]" for j
    by (rule mapE_map) (rule pixel [OF j])
  have outer: "mapE (\<lambda>j. mapE (\<lambda>i. cft_crop_pixel (int j * nx1 P) ((int j + ny2 div 4) * nx2)
                  (nx2 div 4) (cft_scale P) temp dec (int i)) [0..<n]) [0..<m]
        = Inr (map (\<lambda>j. map (\<lambda>i. F (j * n + i)) [0..<n]) [0..<m])"
    by (rule mapE_map) (rule inner)
  have "cft_crop P dec temp =
      bindE (mapE (\<lambda>j. mapE (\<lambda>i. cft_crop_pixel (int j * nx1 P) ((int j + ny2 div 4) * nx2)
                  (nx2 div 4) (cft_scale P) temp dec (int i)) [0..<n]) [0..<m])
        (\<lambda>rows. Inr (concat rows))"
    unfolding cft_crop_def Let_def nx2_def [symmetric] ny2_def [symmetric] cd
      upto_conv_upt mapE_map_list n_def m_def ..
  also have "\<dots> = Inr (map F [0..<m * n])"
    unfolding outer by (simp add: concat_rows)
  also have "map F [0..<m * n] = cropped_image P dec temp"
    unfolding cropped_image_def F_def m_def n_def ..
  finally show ?thesis .
qed

lemma pad_crop_adjoint:
  assumes ok: "cft_window_ok P"
    and lx: "int (length xin) = nx1 P * ny1 P"
    and lt: "int (length temp) = ofx P * nx1 P * (ofy P * ny1 P)"
  shows "cinner (padded_image P dec xin) temp = cinner xin (cropped_image P dec temp)"
proof -
  define n where "n = nat (ny1 P) * nat (nx1 P)"
  define N where "N = nat (ofx P * nx1 P * (ofy P * ny1 P))"
  define w where "w = window_index P"
  define s where "s = complex_of_real (cft_scale P)"
  define d where "d m = complex_of_real (dec ! m)" for m
  have pos: "0 < nx1 P" "0 < ny1 P" using ok by (simp_all add: cft_window_ok_def)
  have "int n = nx1 P * ny1 P" using pos by (simp add: n_def mult.commute)
  then have len: "length xin = n" using lx by linarith
  have lenT: "length temp = N" using lt by (simp add: N_def)
  have sub: "w ` {..<n} \<subseteq> {..<N}"
    using window_index_less [OF ok] by (auto simp add: w_def n_def N_def)
  have inj: "inj_on w {..<n}"
    using window_index_inj [OF ok] by (simp add: w_def n_def)
  have "cinner (padded_image P dec xin) temp = (\<Sum>k<N. padded_image P dec xin ! k * cnj (temp ! k))"
    by (simp add: cinner_def padded_image_length N_def)
  also have "\<dots> = (\<Sum>k\<in>w ` {..<n}. padded_image P dec xin ! k * cnj (temp ! k))"
  proof (rule sum.mono_neutral_right)
    show "finite {..<N}" by simp
    show "w ` {..<n} \<subseteq> {..<N}" by (rule sub)
    show "\<forall>k\<in>{..<N} - w ` {..<n}. padded_image P dec xin ! k * cnj (temp ! k) = 0"
      using padded_image_outside [of _ P dec xin] by (simp add: w_def n_def N_def)
  qed
  also have "\<dots> = (\<Sum>m<n. padded_image P dec xin ! w m * cnj (temp ! w m))"
    by (simp add: sum.reindex [OF inj])
  also have "\<dots> = (\<Sum>m<n. xin ! m * s * d m * cnj (temp ! w m))"
    using padded_image_window [OF ok, of _ dec xin] by (simp add: w_def n_def s_def d_def)
  also have "\<dots> = (\<Sum>m<n. xin ! m * cnj (temp ! w m * s * d m))"
    by (simp add: s_def d_def mult_ac)
  also have "\<dots> = cinner xin (cropped_image P dec temp)"
    by (simp add: cinner_def len cropped_image_def n_def w_def s_def d_def)
  finally show ?thesis .
qed


section \<open>The forward operator and its adjoint\<close>

lemma fftw_execute_dft_total:
  assumes "plan_n0 p * plan_n1 p \<le> length xs"
  shows "\<exists>ys. fftw_execute_dft p xs = Inr ys \<and> length ys = length xs"
  using assms by (simp add: fftw_execute_dft_def Let_def)

lemma fftshift_total:
  assumes "0 \<le> n" "0 \<le> m" "int (length xs) = n * m"
  shows "\<exists>ys. purify_utils_fftshift_2d_c xs n m = Inr ys \<and> length ys = length xs"
  using fftshift_nth [OF assms] by simp

lemma sparsemat_fwd_total:
  assumes "sparsemat_ok A" "ncols A \<le> int (length xs)"
  shows "\<exists>ys. purify_sparsemat_fwd_complexr xs A = Inr ys \<and> length ys = nat (nrows A)"
  using assms by (simp add: purify_sparsemat_fwd_complexr_def)

lemma sparsemat_adj_total:
  assumes "sparsemat_ok A" "nrows A \<le> int (length ys)"
  shows "\<exists>xs. purify_sparsemat_adj_complexr ys A = Inr xs \<and> length xs = nat (ncols A)"
  using assms by (simp add: purify_sparsemat_adj_complexr_def)

text \<open>The hypotheses on the data of the two operators: the image window lies inside the
  padded array, whose dimensions are even; the matrix is a valid CSR matrix with one row
  per measurement and one column per cell of the padded array; the deconvolution array
  covers the image; the plan transforms the padded array.\<close>

lemma cft_adjoint_pair:
  assumes ok: "cft_window_ok (param D)"
    and ev: "even (ofx (param D) * nx1 (param D))" "even (ofy (param D) * ny1 (param D))"
    and A: "sparsemat_ok (mat D)" "nrows (mat D) = nmeas (param D)"
      "ncols (mat D) = ofx (param D) * nx1 (param D) * (ofy (param D) * ny1 (param D))"
    and dec: "nx1 (param D) * ny1 (param D) \<le> int (length (deconv D))"
    and pl: "int (plan_n0 (plan D) * plan_n1 (plan D)) =
               ofx (param D) * nx1 (param D) * (ofy (param D) * ny1 (param D))"
    and lx: "int (length x) = nx1 (param D) * ny1 (param D)"
    and ly: "int (length y) = nmeas (param D)"
  shows "\<exists>a b. purify_measurement_cftfwd D x = Inr a \<and>
           purify_measurement_cftadj (D\<lparr>plan := (plan D)\<lparr>plan_sign := - plan_sign (plan D)\<rparr>\<rparr>) y = Inr b \<and>
           length a = nat (nmeas (param D)) \<and>
           length b = nat (ny1 (param D)) * nat (nx1 (param D)) \<and>
           cinner a y = cinner x b"
proof -
  define P where "P = param D"
  define nx2 where "nx2 = ofx P * nx1 P"
  define ny2 where "ny2 = ofy P * ny1 P"
  define N where "N = nat (nx2 * ny2)"
  define q where "q = (plan D)\<lparr>plan_sign := - plan_sign (plan D)\<rparr>"
  have pos: "0 < nx2" "0 < ny2"
    using ok unfolding cft_window_ok_def P_def nx2_def ny2_def by linarith+
  have even2: "even nx2" "even ny2"
    using ev by (simp_all add: P_def nx2_def ny2_def)
  have Nint: "int N = nx2 * ny2" using pos by (simp add: N_def)
  have plN: "plan_n0 (plan D) * plan_n1 (plan D) = N"
    using pl Nint unfolding P_def [symmetric] nx2_def [symmetric] ny2_def [symmetric] by linarith
  \<comment> \<open>the forward operator, stage by stage\<close>
  define t1 where "t1 = padded_image P (deconv D) x"
  have l1: "length t1 = N"
    by (simp add: t1_def padded_image_length N_def nx2_def ny2_def)
  have pad: "cft_zero_pad P (deconv D) x = Inr t1"
    unfolding t1_def using ok lx dec by (intro cft_zero_pad_ok) (simp_all add: P_def)
  obtain t2 where t2: "purify_utils_fftshift_2d_c t1 nx2 ny2 = Inr t2" and l2: "length t2 = N"
    using fftshift_total [of nx2 ny2 t1] pos l1 Nint by auto
  obtain t3 where t3: "fftw_execute_dft (plan D) t2 = Inr t3" and l3: "length t3 = N"
    using fftw_execute_dft_total [of "plan D" t2] plN l2 by auto
  obtain a where a: "purify_sparsemat_fwd_complexr t3 (mat D) = Inr a"
    and la: "length a = nat (nrows (mat D))"
    using sparsemat_fwd_total [OF A(1), of t3] A(3) l3 Nint by (auto simp add: P_def nx2_def ny2_def)
  have fwd: "purify_measurement_cftfwd D x = Inr a"
    unfolding purify_measurement_cftfwd_def Let_def P_def [symmetric] nx2_def [symmetric]
      ny2_def [symmetric]
    by (simp add: pad t2 t3 a)
  \<comment> \<open>the adjoint operator, stage by stage\<close>
  obtain s1 where s1: "purify_sparsemat_adj_complexr y (mat D) = Inr s1"
    and m1: "length s1 = nat (ncols (mat D))"
    using sparsemat_adj_total [OF A(1), of y] A(2) ly by auto
  have m1': "length s1 = N"
    using m1 A(3) by (simp add: N_def P_def nx2_def ny2_def)
  obtain s2 where s2: "fftw_execute_dft q s1 = Inr s2" and m2: "length s2 = N"
    using fftw_execute_dft_total [of q s1] plN m1' by (auto simp add: q_def)
  obtain s3 where s3: "purify_utils_fftshift_2d_c s2 nx2 ny2 = Inr s3" and m3: "length s3 = N"
    using fftshift_total [of nx2 ny2 s2] pos m2 Nint by auto
  define b where "b = cropped_image P (deconv D) s3"
  have crop: "cft_crop P (deconv D) s3 = Inr b"
    unfolding b_def using ok dec m3 Nint
    by (intro cft_crop_ok) (simp_all add: P_def nx2_def ny2_def)
  have adj: "purify_measurement_cftadj (D\<lparr>plan := q\<rparr>) y = Inr b"
    unfolding purify_measurement_cftadj_def Let_def
    using m1' Nint
    by (simp add: P_def [symmetric] nx2_def [symmetric] ny2_def [symmetric] s1 s2 s3 crop)
  \<comment> \<open>the chain of adjoint pairs\<close>
  have "cinner a y = cinner t3 s1"
    using sparsemat_adjoint [OF A(1) _ _ a s1] l3 Nint A(2,3) ly
    by (simp add: P_def nx2_def ny2_def)
  also have "\<dots> = cinner t2 s2"
    using fftw_execute_dft_adjoint [OF _ _ t3 s2 [unfolded q_def]] l2 m1' plN by simp
  also have "\<dots> = cinner t1 s3"
    using fftshift_adjoint [OF pos(1) even2(1) pos(2) even2(2) _ _ t2 s3] l1 m2 Nint by simp
  also have "\<dots> = cinner x b"
    unfolding t1_def b_def
    using pad_crop_adjoint [OF ok, of x s3 "deconv D"] lx m3 Nint
    by (simp add: P_def nx2_def ny2_def)
  finally have "cinner a y = cinner x b" .
  moreover have "length b = nat (ny1 P) * nat (nx1 P)"
    by (simp add: b_def cropped_image_def)
  ultimately show ?thesis
    using fwd adj la A(2) by (auto simp add: q_def P_def)
qed


lemma length_concat_rows:
  assumes "\<And>r. r \<in> set rows \<Longrightarrow> length r = n"
  shows "length (concat rows) = n * length rows"
  using assms by (induction rows) simp_all

lemma length_measurement_rows:
  "length (concat (measurement_rows P u v)) = 25 * nat (nmeas P)"
proof -
  have "length (concat (measurement_rows P u v)) = 25 * length (measurement_rows P u v)"
    by (rule length_concat_rows) (auto simp add: measurement_rows_def length_row_entries)
  then show ?thesis by (simp add: measurement_rows_def)
qed

lemma nth_rowptr:
  assumes "0 \<le> n" "k \<le> nat n"
  shows "map (\<lambda>j. j * 25) [0..n] ! k = int k * 25"
proof -
  have "k < length [0..n]" using assms by simp
  moreover have "[0..n] ! k = 0 + int k"
    using assms by (intro nth_upto) simp
  ultimately show ?thesis by simp
qed

lemma cft_matrix_ok:
  assumes dims: "4 \<le> ofx P * nx1 P" "4 \<le> ofy P * ny1 P"
    and coords: "coords_in_range P u v"
    and n: "0 \<le> nmeas P"
  shows "sparsemat_ok (cft_matrix P u v)"
proof -
  have col: "list_all (\<lambda>c. 0 \<le> c \<and> c < ofx P * nx1 P * (ofy P * ny1 P)) (colind (cft_matrix P u v))"
    using measurement_rows_colind [OF dims coords] by (simp add: list_all_iff)
  have len: "int (length (concat (measurement_rows P u v))) = nmeas P * 25"
    using n by (simp add: length_measurement_rows)
  have mono: "list_all (\<lambda>r. map (\<lambda>j. j * 25) [0..nmeas P] ! r \<le> map (\<lambda>j. j * 25) [0..nmeas P] ! Suc r)
                [0..<nat (nmeas P)]"
    using n by (simp add: list_all_iff nth_rowptr del: nth_map)
  have ends: "map (\<lambda>j. j * 25) [0..nmeas P] ! 0 = 0"
    "map (\<lambda>j. j * 25) [0..nmeas P] ! nat (nmeas P) = nmeas P * 25"
    using n by (simp_all add: nth_rowptr del: nth_map)
  have nc: "0 \<le> ofx P * nx1 P * (ofy P * ny1 P)" using dims by simp
  show ?thesis
    unfolding sparsemat_ok_def
    using n col len mono ends nc by (simp add: cft_matrix_def)
qed

text \<open>
  Claim C1.  The claim covers every parameter block with even padded dimensions, the
  blocks without oversampling among them.  For \<open>ofx = ofy = 1\<close> and a 4-by-4 image the
  matrix and the deconvolution array are those built by \<^verbatim>\<open>purify_measurement_init_cft\<close>
  and the padded dimensions are even, but \<^verbatim>\<open>purify_measurement_cftfwd\<close> places the image
  one quarter of each padded dimension away from the origin of a scratch array that is
  no larger than the image: the write of line 408 for the pixel \<open>j = 2\<close>, \<open>i = 3\<close> goes to
  the index 16 of an array of 16 entries.  The forward operator has no value there, so
  the pair is not adjoint on this block.
\<close>

theorem cftfwd_unpadded_out_of_bounds:
  "purify_measurement_init_cft P_unpadded [1] [0] = Inr (mat D_unpadded, deconv D_unpadded) \<and>
   even (ofx P_unpadded * nx1 P_unpadded) \<and> even (ofy P_unpadded * ny1 P_unpadded) \<and>
   purify_measurement_cftfwd D_unpadded (replicate 16 1) = Inl Index_out_of_bounds"
proof -
  have "coords_in_range P_unpadded [1] [0]" "cparam_sizes_ok P_unpadded"
    by (simp_all add: coords_in_range_def cparam_sizes_ok_def P_unpadded_def c_int_ok_def
          INT_MIN_def INT_MAX_def upto.simps)
  then have "purify_measurement_init_cft P_unpadded [1] [0] =
      Inr (cft_matrix P_unpadded [1] [0], replicate (nat (nx1 P_unpadded * ny1 P_unpadded)) 1)"
    by (intro init_cft_ok) (simp_all add: P_unpadded_def)
  then have "purify_measurement_init_cft P_unpadded [1] [0] = Inr (mat D_unpadded, deconv D_unpadded)"
    by (simp add: D_unpadded_def P_unpadded_def)
  moreover have "cft_zero_pad P_unpadded (replicate 16 1) (replicate 16 1) = Inl Index_out_of_bounds"
    by (simp add: cft_zero_pad_def P_unpadded_def c_div_def upto.simps cft_pad_pixel_def
          load_def store_def)
  then have "purify_measurement_cftfwd D_unpadded (replicate 16 1) = Inl Index_out_of_bounds"
    by (simp add: purify_measurement_cftfwd_def D_unpadded_def)
  ultimately show ?thesis by (simp add: P_unpadded_def)
qed

text \<open>
  Where the window of the image lies inside the padded array the two operators are
  adjoint.  Let the padded dimensions \<open>nx2 = ofx * nx1\<close> and \<open>ny2 = ofy * ny1\<close> be even
  and at least 4, let the window of the image, placed one quarter of each padded
  dimension away from the origin, lie inside the padded array (\<open>cft_window_ok\<close>, which
  holds for \<open>ofx, ofy \<ge> 2\<close>), let the matrix and the deconvolution array be those built
  by \<^verbatim>\<open>purify_measurement_init_cft\<close> from coordinates inside \<open>(-umax, umax]\<close> and
  \<open>(-vmax, vmax]\<close>, and let the plans of the two operators transform the padded array
  with opposite signs.  Then for every complex image \<open>x\<close> of length \<open>nx1 * ny1\<close> and every
  complex visibility vector \<open>y\<close> of length \<open>nmeas\<close> both operators return, and
  \<open>\<langle>cftfwd x, y\<rangle> = \<langle>x, cftadj y\<rangle>\<close>.  Both scale by the same factor
  \<open>cft_scale P = 1 / sqrt (nx2 * ny2)\<close>, the forward operator in the zero padding and the
  adjoint in the cropping.
\<close>

theorem cft_forward_adjoint_pair:
  assumes "purify_measurement_init_cft P u v = Inr (M, dec)"
    and "coords_in_range P u v" and "cparam_sizes_ok P" and "0 \<le> nmeas P"
    and "even (ofx P * nx1 P)" and "even (ofy P * ny1 P)"
    and "4 \<le> ofx P * nx1 P" and "4 \<le> ofy P * ny1 P"
    and "cft_window_ok P"
    and "int (plan_n0 pl * plan_n1 pl) = ofx P * nx1 P * (ofy P * ny1 P)"
    and "int (length x) = nx1 P * ny1 P" and "int (length y) = nmeas P"
  shows "\<exists>a b. purify_measurement_cftfwd \<lparr>param = P, deconv = dec, mat = M, plan = pl\<rparr> x = Inr a \<and>
           purify_measurement_cftadj
             \<lparr>param = P, deconv = dec, mat = M, plan = pl\<lparr>plan_sign := - plan_sign pl\<rparr>\<rparr> y = Inr b \<and>
           cinner a y = cinner x b"
proof -
  have "purify_measurement_init_cft P u v =
          Inr (cft_matrix P u v, replicate (nat (nx1 P * ny1 P)) 1)"
    using assms(7,8,3,2) by (rule init_cft_ok)
  then have M: "M = cft_matrix P u v" and d: "dec = replicate (nat (nx1 P * ny1 P)) 1"
    using assms(1) by simp_all
  have ok: "sparsemat_ok M"
    unfolding M using assms(7,8,2,4) by (rule cft_matrix_ok)
  have pos: "0 < nx1 P" "0 < ny1 P" using assms(9) by (simp_all add: cft_window_ok_def)
  have ld: "nx1 P * ny1 P \<le> int (length dec)" using pos by (simp add: d)
  define D where "D = \<lparr>param = P, deconv = dec, mat = M, plan = pl\<rparr>"
  have "\<exists>a b. purify_measurement_cftfwd D x = Inr a \<and>
           purify_measurement_cftadj (D\<lparr>plan := (plan D)\<lparr>plan_sign := - plan_sign (plan D)\<rparr>\<rparr>) y = Inr b \<and>
           length a = nat (nmeas (param D)) \<and>
           length b = nat (ny1 (param D)) * nat (nx1 (param D)) \<and>
           cinner a y = cinner x b"
    using assms(9,5,6) ok ld assms(10,11,12)
    by (intro cft_adjoint_pair) (simp_all add: D_def M cft_matrix_def)
  then show ?thesis by (auto simp add: D_def)
qed

theorem cft_forward_adjoint_pair_witness:
  "purify_measurement_init_cft P_example [1] [0] = Inr (cft_matrix P_example [1] [0], replicate 4 1) \<and>
   coords_in_range P_example [1] [0] \<and> cparam_sizes_ok P_example \<and> 0 \<le> nmeas P_example \<and>
   even (ofx P_example * nx1 P_example) \<and> even (ofy P_example * ny1 P_example) \<and>
   4 \<le> ofx P_example * nx1 P_example \<and> 4 \<le> ofy P_example * ny1 P_example \<and>
   cft_window_ok P_example \<and>
   int (plan_n0 plan_fwd_example * plan_n1 plan_fwd_example) =
     ofx P_example * nx1 P_example * (ofy P_example * ny1 P_example) \<and>
   int (length [1, 2, 3, 4 :: complex]) = nx1 P_example * ny1 P_example \<and>
   int (length [\<i>]) = nmeas P_example \<and>
   (\<exists>a b. purify_measurement_cftfwd D_example [1, 2, 3, 4] = Inr a \<and>
      purify_measurement_cftadj (D_example\<lparr>plan := plan_fwd_example\<lparr>plan_sign := 1\<rparr>\<rparr>) [\<i>] = Inr b \<and>
      cinner a [\<i>] = cinner [1, 2, 3, 4] b)"
proof -
  have h: "coords_in_range P_example [1] [0]" "cparam_sizes_ok P_example" "cft_window_ok P_example"
    by (simp_all add: coords_in_range_def cparam_sizes_ok_def cft_window_ok_def P_example_def
          c_int_ok_def INT_MIN_def INT_MAX_def upto.simps)
  have i: "purify_measurement_init_cft P_example [1] [0] =
      Inr (cft_matrix P_example [1] [0], replicate 4 1)"
    using init_cft_ok [of P_example "[1]" "[0]"] h by (simp add: P_example_def)
  show ?thesis
    using h i cft_forward_adjoint_pair [of P_example "[1]" "[0]" "cft_matrix P_example [1] [0]"
        "replicate 4 1" plan_fwd_example "[1, 2, 3, 4]" "[\<i>]"]
    by (simp add: P_example_def plan_fwd_example_def D_example_def)
qed

section \<open>The operators return\<close>

lemma cftfwd_total:
  assumes ok: "cft_data_ok D" and lx: "int (length x) = nx1 (param D) * ny1 (param D)"
  shows "\<exists>y. purify_measurement_cftfwd D x = Inr y \<and> length y = nat (nmeas (param D))"
proof -
  define P where "P = param D"
  define nx2 where "nx2 = ofx P * nx1 P"
  define ny2 where "ny2 = ofy P * ny1 P"
  define N where "N = nat (nx2 * ny2)"
  have w: "cft_window_ok P" and A: "sparsemat_ok (mat D)" "nrows (mat D) = nmeas P"
    "ncols (mat D) = nx2 * ny2" and dec: "nx1 P * ny1 P \<le> int (length (deconv D))"
    and pl: "int (plan_n0 (plan D) * plan_n1 (plan D)) = nx2 * ny2"
    using ok by (simp_all add: cft_data_ok_def P_def nx2_def ny2_def)
  have pos: "0 < nx2" "0 < ny2"
    using w unfolding cft_window_ok_def nx2_def ny2_def by linarith+
  have Nint: "int N = nx2 * ny2" using pos by (simp add: N_def)
  have plN: "plan_n0 (plan D) * plan_n1 (plan D) = N" using pl Nint by linarith
  define t1 where "t1 = padded_image P (deconv D) x"
  have l1: "length t1 = N"
    by (simp add: t1_def padded_image_length N_def nx2_def ny2_def)
  have pad: "cft_zero_pad P (deconv D) x = Inr t1"
    unfolding t1_def using w lx dec by (intro cft_zero_pad_ok) (simp_all add: P_def)
  obtain t2 where t2: "purify_utils_fftshift_2d_c t1 nx2 ny2 = Inr t2" and l2: "length t2 = N"
    using fftshift_total [of nx2 ny2 t1] pos l1 Nint by auto
  obtain t3 where t3: "fftw_execute_dft (plan D) t2 = Inr t3" and l3: "length t3 = N"
    using fftw_execute_dft_total [of "plan D" t2] plN l2 by auto
  obtain a where a: "purify_sparsemat_fwd_complexr t3 (mat D) = Inr a"
    and la: "length a = nat (nrows (mat D))"
    using sparsemat_fwd_total [OF A(1), of t3] A(3) l3 Nint by auto
  have "purify_measurement_cftfwd D x = Inr a"
    unfolding purify_measurement_cftfwd_def Let_def P_def [symmetric] nx2_def [symmetric]
      ny2_def [symmetric]
    by (simp add: pad t2 t3 a)
  then show ?thesis using la A(2) by (simp add: P_def)
qed

lemma sparsemat_adj_prefix:
  assumes "int (length ys) = nrows A"
  shows "purify_sparsemat_adj_complexr (ys @ zs) A = purify_sparsemat_adj_complexr ys A"
proof -
  have "(ys @ zs) ! r = ys ! r" if "r < nat (nrows A)" for r
  proof -
    have "r < length ys" using that assms by linarith
    then show ?thesis by (simp add: nth_append)
  qed
  then have "(\<Sum>r<nat (nrows A). \<Sum>j = nat (rowptr A ! r)..<nat (rowptr A ! Suc r).
                 (if nat (colind A ! j) = c then complex_of_real (vals A ! j) * (ys @ zs) ! r else 0))
           = (\<Sum>r<nat (nrows A). \<Sum>j = nat (rowptr A ! r)..<nat (rowptr A ! Suc r).
                 (if nat (colind A ! j) = c then complex_of_real (vals A ! j) * ys ! r else 0))" for c
    by (intro sum.cong refl) simp
  moreover have "nrows A \<le> int (length (ys @ zs))" "nrows A \<le> int (length ys)"
    using assms by simp_all
  ultimately show ?thesis
    unfolding purify_sparsemat_adj_complexr_def by (simp only: if_True simp_thms)
qed

lemma cftadj_prefix:
  assumes "int (length ys) = nrows (mat D)"
  shows "purify_measurement_cftadj D (ys @ zs) = purify_measurement_cftadj D ys"
  by (simp add: purify_measurement_cftadj_def sparsemat_adj_prefix [OF assms])

lemma cftadj_total:
  assumes ok: "cft_data_ok D" and ly: "int (length y) = nmeas (param D)"
  shows "\<exists>b. purify_measurement_cftadj D y = Inr b \<and>
           int (length b) = nx1 (param D) * ny1 (param D)"
proof -
  define P where "P = param D"
  define nx2 where "nx2 = ofx P * nx1 P"
  define ny2 where "ny2 = ofy P * ny1 P"
  define N where "N = nat (nx2 * ny2)"
  have w: "cft_window_ok P" and A: "sparsemat_ok (mat D)" "nrows (mat D) = nmeas P"
    "ncols (mat D) = nx2 * ny2" and dec: "nx1 P * ny1 P \<le> int (length (deconv D))"
    and pl: "int (plan_n0 (plan D) * plan_n1 (plan D)) = nx2 * ny2"
    using ok by (simp_all add: cft_data_ok_def P_def nx2_def ny2_def)
  have pos: "0 < nx2" "0 < ny2"
    using w unfolding cft_window_ok_def nx2_def ny2_def by linarith+
  have pos1: "0 < nx1 P" "0 < ny1 P" using w by (simp_all add: cft_window_ok_def)
  have Nint: "int N = nx2 * ny2" using pos by (simp add: N_def)
  have plN: "plan_n0 (plan D) * plan_n1 (plan D) = N" using pl Nint by linarith
  obtain s1 where s1: "purify_sparsemat_adj_complexr y (mat D) = Inr s1"
    and m1: "length s1 = nat (ncols (mat D))"
    using sparsemat_adj_total [OF A(1), of y] A(2) ly by (auto simp add: P_def)
  have m1': "length s1 = N" using m1 A(3) by (simp add: N_def)
  obtain s2 where s2: "fftw_execute_dft (plan D) s1 = Inr s2" and m2: "length s2 = N"
    using fftw_execute_dft_total [of "plan D" s1] plN m1' by auto
  obtain s3 where s3: "purify_utils_fftshift_2d_c s2 nx2 ny2 = Inr s3" and m3: "length s3 = N"
    using fftshift_total [of nx2 ny2 s2] pos m2 Nint by auto
  define b where "b = cropped_image P (deconv D) s3"
  have crop: "cft_crop P (deconv D) s3 = Inr b"
    unfolding b_def using w dec m3 Nint
    by (intro cft_crop_ok) (simp_all add: nx2_def ny2_def)
  have "purify_measurement_cftadj D y = Inr b"
    unfolding purify_measurement_cftadj_def Let_def
    using m1' Nint
    by (simp add: P_def [symmetric] nx2_def [symmetric] ny2_def [symmetric] s1 s2 s3 crop)
  moreover have "int (length b) = nx1 P * ny1 P"
    using pos1 by (simp add: b_def cropped_image_def mult.commute)
  ultimately show ?thesis by (simp add: P_def)
qed

section \<open>The operators for real images\<close>

lemma mapE_load_all:
  assumes "int (length xs) = n"
  shows "mapE (\<lambda>i. bindE (load xs i) (\<lambda>z. Inr (f z))) [0..n - 1] = Inr (map f xs)"
proof -
  have "mapE (\<lambda>i. bindE (load xs (int i)) (\<lambda>z. Inr (f z))) [0..<length xs]
      = Inr (map (\<lambda>i. f (xs ! i)) [0..<length xs])"
    by (rule mapE_map) (simp add: load_def)
  moreover have "map (\<lambda>i. f (xs ! i)) [0..<length xs] = map f (map ((!) xs) [0..<length xs])"
    by simp
  moreover have "map ((!) xs) [0..<length xs] = xs"
    by (rule map_nth)
  ultimately have "mapE (\<lambda>i. bindE (load xs (int i)) (\<lambda>z. Inr (f z))) [0..<length xs] = Inr (map f xs)"
    by simp
  moreover have "nat n = length xs" using assms by linarith
  ultimately show ?thesis
    by (simp add: upto_conv_upt mapE_map_list)
qed

lemma symcftfwd_eq:
  assumes "purify_measurement_cftfwd D x = Inr y" "int (length y) = nmeas (param D)"
  shows "purify_measurement_symcftfwd D x = Inr (y @ map cnj y)"
  using assms by (simp add: purify_measurement_symcftfwd_def Let_def mapE_load_all)

lemma symcftadj_eq:
  assumes "purify_measurement_cftadj D y = Inr b"
    "int (length b) = nx1 (param D) * ny1 (param D)"
  shows "purify_measurement_symcftadj D y = Inr (map (\<lambda>z. complex_of_real (2 * Re z)) b)"
  using assms by (simp add: purify_measurement_symcftadj_def Let_def mapE_load_all)


section \<open>The example data fit together\<close>

lemma P_example_facts:
  "coords_in_range P_example [1] [0]" "cparam_sizes_ok P_example" "cft_window_ok P_example"
  by (simp_all add: coords_in_range_def cparam_sizes_ok_def cft_window_ok_def P_example_def
        c_int_ok_def INT_MIN_def INT_MAX_def upto.simps)

lemma D_example_ok: "cft_data_ok D_example" "cft_data_ok D_adj_example"
proof -
  have "sparsemat_ok (cft_matrix P_example [1] [0])"
    using P_example_facts(1) by (intro cft_matrix_ok) (simp_all add: P_example_def)
  then show "cft_data_ok D_example" "cft_data_ok D_adj_example"
    using P_example_facts(3)
    by (simp_all add: cft_data_ok_def D_adj_example_def D_example_def plan_fwd_example_def
          cft_matrix_def P_example_def)
qed

text \<open>
  Claim C5.  For data that fit together and a visibility vector \<open>y\<close> of length \<open>nmeas\<close>,
  \<^verbatim>\<open>purify_measurement_symcftadj\<close> returns an image of length \<open>nx1 * ny1\<close> whose entry \<open>i\<close>
  is \<open>2 * Re (cftadj y)[i] + 0i\<close>: twice the real part of the entry of the unsymmetrised
  adjoint, with imaginary part zero.
\<close>

theorem symcftadj_twice_real_part:
  assumes "cft_data_ok D" and "int (length y) = nmeas (param D)"
  shows "\<exists>b out. purify_measurement_cftadj D y = Inr b \<and>
           purify_measurement_symcftadj D y = Inr out \<and>
           int (length out) = nx1 (param D) * ny1 (param D) \<and> length b = length out \<and>
           (\<forall>i<length out. out ! i = Complex (2 * Re (b ! i)) 0)"
proof -
  obtain b where b: "purify_measurement_cftadj D y = Inr b"
    and l: "int (length b) = nx1 (param D) * ny1 (param D)"
    using cftadj_total [OF assms] by blast
  have "purify_measurement_symcftadj D y = Inr (map (\<lambda>z. complex_of_real (2 * Re z)) b)"
    using b l by (rule symcftadj_eq)
  moreover have "\<forall>i<length b. map (\<lambda>z. complex_of_real (2 * Re z)) b ! i = Complex (2 * Re (b ! i)) 0"
    by (simp add: complex_eq_iff)
  ultimately show ?thesis using b l by auto
qed

theorem symcftadj_twice_real_part_witness:
  "cft_data_ok D_adj_example \<and> int (length [\<i>]) = nmeas (param D_adj_example) \<and>
   (\<exists>b out. purify_measurement_cftadj D_adj_example [\<i>] = Inr b \<and>
      purify_measurement_symcftadj D_adj_example [\<i>] = Inr out \<and>
      int (length out) = 4 \<and> length b = length out \<and>
      (\<forall>i<length out. out ! i = Complex (2 * Re (b ! i)) 0))"
  using D_example_ok(2) symcftadj_twice_real_part [of D_adj_example "[\<i>]"]
  by (simp add: D_adj_example_def D_example_def P_example_def)

text \<open>
  Claim C6.  For data that fit together and an image \<open>x\<close> of length \<open>nx1 * ny1\<close>,
  \<^verbatim>\<open>purify_measurement_symcftfwd\<close> returns an output of length \<open>2 * nmeas\<close> whose first
  block is the output of \<^verbatim>\<open>purify_measurement_cftfwd\<close> on \<open>x\<close> and whose second block
  satisfies \<open>out[nmeas + i] = conj (out[i])\<close> for \<open>i < nmeas\<close>.  The function calls
  \<^verbatim>\<open>purify_measurement_cftfwd\<close> once, as its definition shows.
\<close>

theorem symcftfwd_conjugate_blocks:
  assumes "cft_data_ok D" and "int (length x) = nx1 (param D) * ny1 (param D)"
  shows "\<exists>y out. purify_measurement_cftfwd D x = Inr y \<and>
           purify_measurement_symcftfwd D x = Inr out \<and>
           int (length out) = 2 * nmeas (param D) \<and>
           take (nat (nmeas (param D))) out = y \<and>
           (\<forall>i<nat (nmeas (param D)). out ! (nat (nmeas (param D)) + i) = cnj (out ! i))"
proof -
  obtain y where y: "purify_measurement_cftfwd D x = Inr y"
    and l: "length y = nat (nmeas (param D))"
    using cftfwd_total [OF assms] by blast
  have "0 \<le> nrows (mat D)" "nrows (mat D) = nmeas (param D)"
    using assms(1) by (simp_all add: cft_data_ok_def sparsemat_ok_def)
  then have li: "int (length y) = nmeas (param D)" using l by simp
  have "purify_measurement_symcftfwd D x = Inr (y @ map cnj y)"
    using y li by (rule symcftfwd_eq)
  moreover have "int (length (y @ map cnj y)) = 2 * nmeas (param D)" using li by simp
  moreover have "take (nat (nmeas (param D))) (y @ map cnj y) = y" using l by simp
  moreover have "\<forall>i<nat (nmeas (param D)). (y @ map cnj y) ! (nat (nmeas (param D)) + i) = cnj ((y @ map cnj y) ! i)"
    using l by (simp add: nth_append)
  ultimately show ?thesis using y by blast
qed

theorem symcftfwd_conjugate_blocks_witness:
  "cft_data_ok D_example \<and> int (length [1, 2, 3, 4 :: complex]) = nx1 (param D_example) * ny1 (param D_example) \<and>
   (\<exists>y out. purify_measurement_cftfwd D_example [1, 2, 3, 4] = Inr y \<and>
      purify_measurement_symcftfwd D_example [1, 2, 3, 4] = Inr out \<and>
      int (length out) = 2 \<and> take 1 out = y \<and> out ! 1 = cnj (out ! 0))"
  using D_example_ok(1) symcftfwd_conjugate_blocks [of D_example "[1, 2, 3, 4]"]
  by (simp add: D_example_def P_example_def)

section \<open>The symmetric composite on a unit image\<close>

subsection \<open>The forward operator on a unit image\<close>

text \<open>The image that is 1 at the pixel \<open>m0\<close> and 0 elsewhere is padded to an array with
  one entry that is not zero, which the quadrant swap moves to the cell \<open>q\<close>; its
  transform at the cell \<open>k\<close> is the phase factor of \<open>k\<close> and \<open>q\<close>, scaled.\<close>

lemma cftfwd_unit_image:
  assumes ok: "cft_data_ok D"
    and ev: "even (ofx (param D) * nx1 (param D))" "even (ofy (param D) * ny1 (param D))"
    and m0: "m0 < nat (ny1 (param D)) * nat (nx1 (param D))"
  shows "purify_measurement_cftfwd D ((replicate (nat (ny1 (param D)) * nat (nx1 (param D))) 0)[m0 := 1]) =
     Inr (map (\<lambda>r. complex_of_real (cft_scale (param D)) * complex_of_real (deconv D ! m0) *
            (\<Sum>j = nat (rowptr (mat D) ! r)..<nat (rowptr (mat D) ! Suc r).
             complex_of_real (vals (mat D) ! j) *
             cis (dft_phase (plan_n0 (plan D)) (plan_n1 (plan D)) (plan_sign (plan D))
                  (nat (colind (mat D) ! j) div plan_n1 (plan D))
                  (nat (colind (mat D) ! j) mod plan_n1 (plan D))
                  (fftshift_index (nat (ofx (param D) * nx1 (param D))) (nat (ofy (param D) * ny1 (param D)))
                     (window_index (param D) m0) div plan_n1 (plan D))
                  (fftshift_index (nat (ofx (param D) * nx1 (param D))) (nat (ofy (param D) * ny1 (param D)))
                     (window_index (param D) m0) mod plan_n1 (plan D)))))
          [0..<nat (nrows (mat D))])"
proof -
  define P where "P = param D"
  define nx2 where "nx2 = ofx P * nx1 P"
  define ny2 where "ny2 = ofy P * ny1 P"
  define N where "N = nat (nx2 * ny2)"
  define n1 where "n1 = nat (ny1 P) * nat (nx1 P)"
  define x :: "complex list" where "x = (replicate n1 0)[m0 := 1]"
  define \<delta> where "\<delta> = complex_of_real (cft_scale P) * complex_of_real (deconv D ! m0)"
  define w0 where "w0 = window_index P m0"
  define q where "q = fftshift_index (nat nx2) (nat ny2) w0"
  define p where "p = plan D"
  have w: "cft_window_ok P" and A: "sparsemat_ok (mat D)" "nrows (mat D) = nmeas P"
    "ncols (mat D) = nx2 * ny2" and dec: "nx1 P * ny1 P \<le> int (length (deconv D))"
    and pl: "int (plan_n0 (plan D) * plan_n1 (plan D)) = nx2 * ny2"
    using ok by (simp_all add: cft_data_ok_def P_def nx2_def ny2_def)
  have even2: "even nx2" "even ny2" using ev by (simp_all add: nx2_def ny2_def P_def)
  have pos: "0 < nx2" "0 < ny2"
    using w unfolding cft_window_ok_def nx2_def ny2_def by linarith+
  have pos1: "0 < nx1 P" "0 < ny1 P" using w unfolding cft_window_ok_def by linarith+
  have Nint: "int N = nx2 * ny2" using pos by (simp add: N_def)
  have Nnat: "N = nat nx2 * nat ny2" using pos by (simp add: N_def nat_mult_distrib)
  have plN: "plan_n0 p * plan_n1 p = N" using pl Nint unfolding p_def by linarith
  have m0': "m0 < n1" using m0 by (simp add: n1_def P_def)
  have lx: "int (length x) = nx1 P * ny1 P"
    using pos1 by (simp add: x_def n1_def)
  define t1 where "t1 = padded_image P (deconv D) x"
  have l1: "length t1 = N"
    by (simp add: t1_def padded_image_length N_def nx2_def ny2_def)
  have pad: "cft_zero_pad P (deconv D) x = Inr t1"
    unfolding t1_def using w lx dec by (intro cft_zero_pad_ok) (simp_all add: P_def)
  have w0N: "w0 < N"
    unfolding w0_def N_def nx2_def ny2_def using w m0' unfolding n1_def by (rule window_index_less)
  have t1_nth: "t1 ! k = (if k = w0 then \<delta> else 0)" if k: "k < N" for k
  proof (cases "k \<in> window_index P ` {..<n1}")
    case True
    then obtain m where m: "m < n1" "k = window_index P m" by auto
    have "t1 ! k = x ! m * complex_of_real (cft_scale P) * complex_of_real (deconv D ! m)"
      unfolding t1_def m(2) using w m(1) unfolding n1_def by (rule padded_image_window)
    moreover have "x ! m = (if m = m0 then 1 else 0)"
      using m(1) m0' by (simp add: x_def nth_list_update)
    moreover have "k = w0 \<longleftrightarrow> m = m0"
      using inj_onD [OF window_index_inj [OF w], of m m0] m m0' by (auto simp add: w0_def n1_def)
    ultimately show ?thesis by (simp add: \<delta>_def)
  next
    case False
    then have "t1 ! k = 0"
      unfolding t1_def n1_def using k unfolding N_def nx2_def ny2_def
      by (intro padded_image_outside) simp_all
    moreover have "k \<noteq> w0" using False m0' by (auto simp add: w0_def)
    ultimately show ?thesis by simp
  qed
  define t2 where "t2 = map (\<lambda>k. t1 ! fftshift_index (nat nx2) (nat ny2) k) [0..<N]"
  have t2: "purify_utils_fftshift_2d_c t1 nx2 ny2 = Inr t2"
    unfolding t2_def using fftshift_nth [of nx2 ny2 t1] pos l1 Nint by simp
  have l2: "length t2 = N" by (simp add: t2_def)
  have qN: "q < N"
    unfolding q_def Nnat using pos w0N by (intro fftshift_index_less) (simp_all add: Nnat)
  have t2_nth: "t2 ! k = (if k = q then \<delta> else 0)" if k: "k < N" for k
  proof -
    have s: "fftshift_index (nat nx2) (nat ny2) k < N"
      unfolding Nnat using pos k by (intro fftshift_index_less) (simp_all add: Nnat)
    have inv: "fftshift_index (nat nx2) (nat ny2) (fftshift_index (nat nx2) (nat ny2) j) = j"
      if "j < N" for j
      using even2 pos that by (intro fftshift_index_involution) (simp_all add: Nnat even_nat_iff)
    have "fftshift_index (nat nx2) (nat ny2) k = w0 \<longleftrightarrow> k = q"
      using inv [OF k] inv [OF w0N] by (auto simp add: q_def)
    then show ?thesis using k s by (simp add: t2_def t1_nth)
  qed
  define t3 where "t3 = map (\<lambda>k. \<delta> * cis (dft_phase (plan_n0 p) (plan_n1 p) (plan_sign p)
      (k div plan_n1 p) (k mod plan_n1 p) (q div plan_n1 p) (q mod plan_n1 p))) [0..<N]"
  have "(\<Sum>j<N. t2 ! j * cis (dft_phase (plan_n0 p) (plan_n1 p) (plan_sign p)
            (k div plan_n1 p) (k mod plan_n1 p) (j div plan_n1 p) (j mod plan_n1 p)))
        = \<delta> * cis (dft_phase (plan_n0 p) (plan_n1 p) (plan_sign p)
            (k div plan_n1 p) (k mod plan_n1 p) (q div plan_n1 p) (q mod plan_n1 p))" for k
  proof -
    have "(\<Sum>j<N. t2 ! j * cis (dft_phase (plan_n0 p) (plan_n1 p) (plan_sign p)
            (k div plan_n1 p) (k mod plan_n1 p) (j div plan_n1 p) (j mod plan_n1 p)))
        = (\<Sum>j<N. if q = j then \<delta> * cis (dft_phase (plan_n0 p) (plan_n1 p) (plan_sign p)
            (k div plan_n1 p) (k mod plan_n1 p) (j div plan_n1 p) (j mod plan_n1 p)) else 0)"
      by (intro sum.cong refl) (auto simp add: t2_nth)
    also have "\<dots> = \<delta> * cis (dft_phase (plan_n0 p) (plan_n1 p) (plan_sign p)
            (k div plan_n1 p) (k mod plan_n1 p) (q div plan_n1 p) (q mod plan_n1 p))"
      using qN by (simp add: sum.delta)
    finally show ?thesis .
  qed
  then have t3: "fftw_execute_dft p t2 = Inr t3"
    unfolding fftw_execute_dft_def Let_def t3_def using plN l2 by simp
  have l3: "length t3 = N" by (simp add: t3_def)
  have a: "purify_sparsemat_fwd_complexr t3 (mat D) =
     Inr (map (\<lambda>r. \<Sum>j = nat (rowptr (mat D) ! r)..<nat (rowptr (mat D) ! Suc r).
            complex_of_real (vals (mat D) ! j) *
            (\<delta> * cis (dft_phase (plan_n0 p) (plan_n1 p) (plan_sign p)
                  (nat (colind (mat D) ! j) div plan_n1 p)
                  (nat (colind (mat D) ! j) mod plan_n1 p)
                  (q div plan_n1 p) (q mod plan_n1 p))))
          [0..<nat (nrows (mat D))])"
  proof -
    have "(\<Sum>j = nat (rowptr (mat D) ! r)..<nat (rowptr (mat D) ! Suc r).
              complex_of_real (vals (mat D) ! j) * t3 ! nat (colind (mat D) ! j))
        = (\<Sum>j = nat (rowptr (mat D) ! r)..<nat (rowptr (mat D) ! Suc r).
            complex_of_real (vals (mat D) ! j) *
            (\<delta> * cis (dft_phase (plan_n0 p) (plan_n1 p) (plan_sign p)
                  (nat (colind (mat D) ! j) div plan_n1 p)
                  (nat (colind (mat D) ! j) mod plan_n1 p)
                  (q div plan_n1 p) (q mod plan_n1 p))))"
      if r: "r < nat (nrows (mat D))" for r
    proof (intro sum.cong refl)
      fix j assume j: "j \<in> {nat (rowptr (mat D) ! r)..<nat (rowptr (mat D) ! Suc r)}"
      have "nat (colind (mat D) ! j) < N"
        using sparsemat_entry_range(2) [OF A(1) r j] A(3) by (simp add: N_def)
      then show "complex_of_real (vals (mat D) ! j) * t3 ! nat (colind (mat D) ! j) =
            complex_of_real (vals (mat D) ! j) *
            (\<delta> * cis (dft_phase (plan_n0 p) (plan_n1 p) (plan_sign p)
                  (nat (colind (mat D) ! j) div plan_n1 p)
                  (nat (colind (mat D) ! j) mod plan_n1 p)
                  (q div plan_n1 p) (q mod plan_n1 p)))"
        by (simp add: t3_def)
    qed
    moreover have "ncols (mat D) \<le> int (length t3)" using A(3) l3 Nint by simp
    ultimately show ?thesis
      unfolding purify_sparsemat_fwd_complexr_def using A(1) by simp
  qed
  have "purify_measurement_cftfwd D x = Inr (map (\<lambda>r. \<Sum>j = nat (rowptr (mat D) ! r)..<nat (rowptr (mat D) ! Suc r).
            complex_of_real (vals (mat D) ! j) *
            (\<delta> * cis (dft_phase (plan_n0 p) (plan_n1 p) (plan_sign p)
                  (nat (colind (mat D) ! j) div plan_n1 p)
                  (nat (colind (mat D) ! j) mod plan_n1 p)
                  (q div plan_n1 p) (q mod plan_n1 p))))
          [0..<nat (nrows (mat D))])"
    unfolding purify_measurement_cftfwd_def Let_def P_def [symmetric] nx2_def [symmetric]
      ny2_def [symmetric]
    using t3 by (simp add: pad t2 a p_def)
  also have "(\<lambda>r. \<Sum>j = nat (rowptr (mat D) ! r)..<nat (rowptr (mat D) ! Suc r).
            complex_of_real (vals (mat D) ! j) *
            (\<delta> * cis (dft_phase (plan_n0 p) (plan_n1 p) (plan_sign p)
                  (nat (colind (mat D) ! j) div plan_n1 p)
                  (nat (colind (mat D) ! j) mod plan_n1 p)
                  (q div plan_n1 p) (q mod plan_n1 p))))
      = (\<lambda>r. \<delta> * (\<Sum>j = nat (rowptr (mat D) ! r)..<nat (rowptr (mat D) ! Suc r).
            complex_of_real (vals (mat D) ! j) *
            cis (dft_phase (plan_n0 p) (plan_n1 p) (plan_sign p)
                  (nat (colind (mat D) ! j) div plan_n1 p)
                  (nat (colind (mat D) ! j) mod plan_n1 p)
                  (q div plan_n1 p) (q mod plan_n1 p))))"
    by (simp add: sum_distrib_left mult.left_commute)
  finally show ?thesis
    unfolding x_def n1_def \<delta>_def q_def w0_def p_def nx2_def ny2_def P_def .
qed

subsection \<open>The example operator\<close>

lemma quarter_turn_power:
  "(- \<i>) ^ n = (if n mod 4 = 0 then 1 else if n mod 4 = 1 then - \<i>
                  else if n mod 4 = 2 then - 1 else \<i>)"
proof -
  have p: "(- \<i>) ^ 2 = - 1" "(- \<i>) ^ 3 = \<i>" "(- \<i>) ^ 4 = 1"
    by (simp_all add: power2_eq_square power3_eq_cube power4_eq_xxxx)
  have "(- \<i>) ^ n = (- \<i>) ^ (4 * (n div 4) + n mod 4)" by simp
  also have "\<dots> = (- \<i>) ^ (n mod 4)"
    unfolding power_add power_mult p by simp
  finally have r: "(- \<i>) ^ n = (- \<i>) ^ (n mod 4)" .
  have "n mod 4 = 0 \<or> n mod 4 = 1 \<or> n mod 4 = 2 \<or> n mod 4 = 3" by presburger
  then have "(- \<i>) ^ (n mod 4) = (if n mod 4 = 0 then 1 else if n mod 4 = 1 then - \<i>
                  else if n mod 4 = 2 then - 1 else \<i>)"
    by (elim disjE) (simp_all add: p)
  with r show ?thesis by (rule trans)
qed

lemma cis_quarter_phase:
  "cis (dft_phase 4 4 (- 1) k0 k1 j0 j1) =
     (if (j0 * k0 + j1 * k1) mod 4 = 0 then 1 else if (j0 * k0 + j1 * k1) mod 4 = 1 then - \<i>
      else if (j0 * k0 + j1 * k1) mod 4 = 2 then - 1 else \<i>)"
proof -
  have "dft_phase 4 4 (- 1) k0 k1 j0 j1 = real (j0 * k0 + j1 * k1) * (- (pi / 2))"
    by (simp add: dft_phase_def field_simps)
  then have "cis (dft_phase 4 4 (- 1) k0 k1 j0 j1) = cis (- (pi / 2)) ^ (j0 * k0 + j1 * k1)"
    by (simp only: DeMoivre)
  also have "cis (- (pi / 2)) = - \<i>" by (simp add: complex_eq_iff)
  finally show ?thesis by (simp only: quarter_turn_power)
qed

lemma sum_25:
  fixes f :: "nat \<Rightarrow> complex"
  shows "(\<Sum>j = 0..<25. f j) = f 0 + f 1 + f 2 + f 3 + f 4 + f 5 + f 6 + f 7 + f 8 + f 9 + f 10 +
     f 11 + f 12 + f 13 + f 14 + f 15 + f 16 + f 17 + f 18 + f 19 + f 20 + f 21 + f 22 + f 23 + f 24"
  by (simp add: eval_nat_numeral)

lemma example_rows:
  "measurement_rows P_example [1] [0] =
    [[(convfn_at 240 * convfn_at 240, 11),
       (convfn_at 240 * convfn_at 120, 8), (convfn_at 240 * convfn_at 0, 9),
       (convfn_at 240 * convfn_at 120, 10),
       (convfn_at 240 * convfn_at 240, 11),
       (convfn_at 120 * convfn_at 240, 15),
       (convfn_at 120 * convfn_at 120, 12),
       (convfn_at 120 * convfn_at 0, 13),
       (convfn_at 120 * convfn_at 120, 14),
       (convfn_at 120 * convfn_at 240, 15), (convfn_at 0 * convfn_at 240, 3),
       (convfn_at 0 * convfn_at 120, 0), (convfn_at 0 * convfn_at 0, 1),
       (convfn_at 0 * convfn_at 120, 2), (convfn_at 0 * convfn_at 240, 3),
       (convfn_at 120 * convfn_at 240, 7),
       (convfn_at 120 * convfn_at 120, 4), (convfn_at 120 * convfn_at 0, 5),
       (convfn_at 120 * convfn_at 120, 6),
       (convfn_at 120 * convfn_at 240, 7),
       (convfn_at 240 * convfn_at 240, 11),
       (convfn_at 240 * convfn_at 120, 8), (convfn_at 240 * convfn_at 0, 9),
       (convfn_at 240 * convfn_at 120, 10),
       (convfn_at 240 * convfn_at 240, 11)]]"
  by (simp add: measurement_rows_def P_example_def row_entries_def scaled_coord_def nearest_cell_def
      nmask_def upto.simps table_index_def tgtocg_value wrap_cell_def)

lemma cft_scale_example: "cft_scale P_example = 1 / 4"
proof -
  have "sqrt 16 = sqrt (4\<^sup>2)" by simp
  also have "\<dots> = 4" by (simp only: real_sqrt_abs)
  finally show ?thesis by (simp add: cft_scale_def P_example_def)
qed

lemma convfn_at_0: "convfn_at 0 = 1" by (simp add: convfn_at_def)


lemma example_matrix:
  "vals (mat D_example) = map fst (concat (measurement_rows P_example [1] [0]))"
  "colind (mat D_example) = map snd (concat (measurement_rows P_example [1] [0]))"
  "rowptr (mat D_example) = [0, 25]" "nrows (mat D_example) = 1"
  by (simp_all add: D_example_def cft_matrix_def P_example_def upto.simps)

lemma example_plan:
  "plan_n0 (plan D_example) = 4" "plan_n1 (plan D_example) = 4" "plan_sign (plan D_example) = - 1"
  "cft_scale (param D_example) = 1 / 4"
  "m < 4 \<Longrightarrow> deconv D_example ! m = 1"
  by (simp_all add: D_example_def plan_fwd_example_def cft_scale_example)

lemma example_cells:
  "fftshift_index (nat (ofx (param D_example) * nx1 (param D_example)))
     (nat (ofy (param D_example) * ny1 (param D_example))) (window_index (param D_example) 0) = 15"
  "fftshift_index (nat (ofx (param D_example) * nx1 (param D_example)))
     (nat (ofy (param D_example) * ny1 (param D_example))) (window_index (param D_example) 1) = 12"
  "fftshift_index (nat (ofx (param D_example) * nx1 (param D_example)))
     (nat (ofy (param D_example) * ny1 (param D_example))) (window_index (param D_example) 2) = 3"
  "fftshift_index (nat (ofx (param D_example) * nx1 (param D_example)))
     (nat (ofy (param D_example) * ny1 (param D_example))) (window_index (param D_example) 3) = 0"
  by (simp_all add: D_example_def P_example_def window_index_def fftshift_index_def)

lemma example_unit_images:
  "(replicate (nat (ny1 (param D_example)) * nat (nx1 (param D_example))) 0)[0 := 1] = [1, 0, 0, 0 :: complex]"
  "(replicate (nat (ny1 (param D_example)) * nat (nx1 (param D_example))) 0)[1 := 1] = [0, 1, 0, 0 :: complex]"
  "(replicate (nat (ny1 (param D_example)) * nat (nx1 (param D_example))) 0)[2 := 1] = [0, 0, 1, 0 :: complex]"
  "(replicate (nat (ny1 (param D_example)) * nat (nx1 (param D_example))) 0)[3 := 1] = [0, 0, 0, 1 :: complex]"
  by (simp_all add: D_example_def P_example_def eval_nat_numeral)

lemma example_column:
  "(\<Sum>j = 0..<25. complex_of_real (vals (mat D_example) ! j) *
        cis (dft_phase 4 4 (- 1) (nat (colind (mat D_example) ! j) div 4)
               (nat (colind (mat D_example) ! j) mod 4) 3 3)) = \<i> * complex_of_real (kernel_alt\<^sup>2)"
  "(\<Sum>j = 0..<25. complex_of_real (vals (mat D_example) ! j) *
        cis (dft_phase 4 4 (- 1) (nat (colind (mat D_example) ! j) div 4)
               (nat (colind (mat D_example) ! j) mod 4) 3 0)) = complex_of_real (kernel_sum * kernel_alt)"
  "(\<Sum>j = 0..<25. complex_of_real (vals (mat D_example) ! j) *
        cis (dft_phase 4 4 (- 1) (nat (colind (mat D_example) ! j) div 4)
               (nat (colind (mat D_example) ! j) mod 4) 0 3)) = \<i> * complex_of_real (kernel_sum * kernel_alt)"
  "(\<Sum>j = 0..<25. complex_of_real (vals (mat D_example) ! j) *
        cis (dft_phase 4 4 (- 1) (nat (colind (mat D_example) ! j) div 4)
               (nat (colind (mat D_example) ! j) mod 4) 0 0)) = complex_of_real (kernel_sum\<^sup>2)"
     apply (simp_all only: sum_25 example_matrix example_rows)
     apply (simp_all add: cis_quarter_phase convfn_at_0 kernel_alt_def kernel_sum_def power2_eq_square algebra_simps)
  done

lemma cftfwd_example_units:
  "purify_measurement_cftfwd D_example [1, 0, 0, 0] = Inr [\<i> * complex_of_real (kernel_alt\<^sup>2 / 4)]"
  "purify_measurement_cftfwd D_example [0, 1, 0, 0] = Inr [complex_of_real (kernel_sum * kernel_alt / 4)]"
  "purify_measurement_cftfwd D_example [0, 0, 1, 0] = Inr [\<i> * complex_of_real (kernel_sum * kernel_alt / 4)]"
  "purify_measurement_cftfwd D_example [0, 0, 0, 1] = Inr [complex_of_real (kernel_sum\<^sup>2 / 4)]"
proof -
  have ev: "even (ofx (param D_example) * nx1 (param D_example))"
    "even (ofy (param D_example) * ny1 (param D_example))"
    by (simp_all add: D_example_def P_example_def)
  have n: "nat (ny1 (param D_example)) * nat (nx1 (param D_example)) = 4"
    by (simp add: D_example_def P_example_def)
  note u = cftfwd_unit_image [OF D_example_ok(1) ev, unfolded n]
  show "purify_measurement_cftfwd D_example [1, 0, 0, 0] = Inr [\<i> * complex_of_real (kernel_alt\<^sup>2 / 4)]"
    using u [of 0]
    by (simp add: example_unit_images [unfolded n] example_plan example_cells example_matrix(3,4) example_column)
  show "purify_measurement_cftfwd D_example [0, 1, 0, 0] = Inr [complex_of_real (kernel_sum * kernel_alt / 4)]"
    using u [of 1]
    by (simp add: example_unit_images [unfolded n One_nat_def] example_plan
          example_cells [unfolded One_nat_def] example_matrix(3,4) example_column)
  show "purify_measurement_cftfwd D_example [0, 0, 1, 0] = Inr [\<i> * complex_of_real (kernel_sum * kernel_alt / 4)]"
    using u [of 2]
    by (simp add: example_unit_images [unfolded n] example_plan example_cells example_matrix(3,4) example_column)
  show "purify_measurement_cftfwd D_example [0, 0, 0, 1] = Inr [complex_of_real (kernel_sum\<^sup>2 / 4)]"
    using u [of 3]
    by (simp add: example_unit_images [unfolded n] example_plan example_cells example_matrix(3,4) example_column)
qed

lemma list_of_four:
  assumes "length b = 4"
  shows "b = [b ! 0, b ! 1, b ! 2, b ! 3]"
proof -
  obtain b0 b1 b2 b3 where "b = [b0, b1, b2, b3]"
    using assms by (auto simp add: eval_nat_numeral length_Suc_conv)
  then show ?thesis by simp
qed

lemma cftadj_example:
  "purify_measurement_cftadj D_adj_example [complex_of_real (kernel_sum\<^sup>2 / 4)] =
     Inr [- \<i> * complex_of_real (kernel_alt\<^sup>2 * kernel_sum\<^sup>2 / 16),
          complex_of_real (kernel_sum ^ 3 * kernel_alt / 16),
          - \<i> * complex_of_real (kernel_sum ^ 3 * kernel_alt / 16),
          complex_of_real (kernel_sum ^ 4 / 16)]"
proof -
  define Y where "Y = complex_of_real (kernel_sum\<^sup>2 / 4)"
  have adj: "D_example\<lparr>plan := (plan D_example)\<lparr>plan_sign := - plan_sign (plan D_example)\<rparr>\<rparr> = D_adj_example"
    by (simp add: D_adj_example_def D_example_def plan_fwd_example_def)
  have par: "nmeas (param D_example) = 1" "nx1 (param D_example) = 2" "ny1 (param D_example) = 2"
    "param D_adj_example = param D_example"
    by (simp_all add: D_adj_example_def D_example_def P_example_def)
  obtain b where b: "purify_measurement_cftadj D_adj_example [Y] = Inr b"
    and lb: "int (length b) = nx1 (param D_adj_example) * ny1 (param D_adj_example)"
    using cftadj_total [OF D_example_ok(2), of "[Y]"] by (auto simp add: par)
  have l4: "length b = 4" using lb by (simp add: par)
  have ev: "even (ofx (param D_example) * nx1 (param D_example))"
    "even (ofy (param D_example) * ny1 (param D_example))"
    by (simp_all add: D_example_def P_example_def)
  have pair: "cinner a [Y] = cinner x b"
    if "purify_measurement_cftfwd D_example x = Inr a" "length x = 4" for x a
  proof -
    have "\<exists>a b. purify_measurement_cftfwd D_example x = Inr a \<and>
           purify_measurement_cftadj (D_example\<lparr>plan := (plan D_example)\<lparr>plan_sign := - plan_sign (plan D_example)\<rparr>\<rparr>) [Y] = Inr b \<and>
           length a = nat (nmeas (param D_example)) \<and>
           length b = nat (ny1 (param D_example)) * nat (nx1 (param D_example)) \<and>
           cinner a [Y] = cinner x b"
      using D_example_ok(1) ev that(2)
      by (intro cft_adjoint_pair) (simp_all add: cft_data_ok_def par)
    then show ?thesis unfolding adj using that(1) b by auto
  qed
  have Yc: "cnj Y = Y" by (simp add: Y_def)
  have "cnj (b ! 0) = \<i> * complex_of_real (kernel_alt\<^sup>2 / 4) * Y"
    using pair [OF cftfwd_example_units(1)] by (simp add: cinner_def Yc)
  then have b0: "b ! 0 = - \<i> * complex_of_real (kernel_alt\<^sup>2 * kernel_sum\<^sup>2 / 16)"
    unfolding Y_def by (simp add: complex_eq_iff)
  have "cnj (b ! 1) = complex_of_real (kernel_sum * kernel_alt / 4) * Y"
    using pair [OF cftfwd_example_units(2)] by (simp add: cinner_def Yc)
  then have b1: "b ! 1 = complex_of_real (kernel_sum ^ 3 * kernel_alt / 16)"
    unfolding Y_def by (simp add: complex_eq_iff power2_eq_square power3_eq_cube)
  have "cnj (b ! 2) = \<i> * complex_of_real (kernel_sum * kernel_alt / 4) * Y"
    using pair [OF cftfwd_example_units(3)] by (simp add: cinner_def Yc numeral_2_eq_2)
  then have b2: "b ! 2 = - \<i> * complex_of_real (kernel_sum ^ 3 * kernel_alt / 16)"
    unfolding Y_def by (simp add: complex_eq_iff power2_eq_square power3_eq_cube field_simps)
  have "cnj (b ! 3) = complex_of_real (kernel_sum\<^sup>2 / 4) * Y"
    using pair [OF cftfwd_example_units(4)] by (simp add: cinner_def Yc numeral_3_eq_3)
  then have b3: "b ! 3 = complex_of_real (kernel_sum ^ 4 / 16)"
    unfolding Y_def by (simp add: complex_eq_iff power2_eq_square power4_eq_xxxx)
  have "b = [b ! 0, b ! 1, b ! 2, b ! 3]" using l4 by (rule list_of_four)
  then show ?thesis using b unfolding Y_def b0 b1 b2 b3 by simp
qed

lemma kernel_positive: "0 < kernel_sum" "0 < kernel_alt"
proof -
  show "0 < kernel_sum"
    unfolding kernel_sum_def convfn_at_def
    by (intro add_pos_nonneg) simp_all
  have r: "recvar = ln 2 / 7056"
    by (simp add: recvar_def cghwhm_def tgtocg_value hwhm_def)
  have "(0 :: real) < ln 2" by simp
  then have "- recvar * real 240 * real 240 < - ln 2" unfolding r by simp
  then have "convfn_at 240 < exp (- ln 2)"
    unfolding convfn_at_def by (simp only: exp_less_cancel_iff)
  also have "exp (- ln 2) = (1 :: real) / 2" by (simp add: exp_minus inverse_eq_divide)
  finally show "0 < kernel_alt" by (simp add: kernel_alt_def)
qed


text \<open>
  Claim C4.  The claim expects the composite \<open>symcftadj (symcftfwd x)\<close> of a real image
  \<open>x\<close> to be proportional to \<open>cftadj (cftfwd x)\<close>.  Take the 2-by-2 image that is 1 at
  its last pixel and 0 elsewhere, on the padded 4-by-4 grid with one measurement at
  \<open>u = 1\<close>, \<open>v = 0\<close>, and write \<open>S\<close> for \<^verbatim>\<open>kernel_sum\<close> and \<open>T\<close> for \<^verbatim>\<open>kernel_alt\<close>.  The
  forward operator returns the real visibility \<open>S\<^sup>2 / 4\<close>, the adjoint returns the image
  \<open>[-i T\<^sup>2 S\<^sup>2 / 16, S\<^sup>3 T / 16, -i S\<^sup>3 T / 16, S\<^sup>4 / 16]\<close>, and the symmetric composite returns
  \<open>[0, S\<^sup>3 T / 8, 0, S\<^sup>4 / 8]\<close>.  The first entry of the symmetric composite is 0 where the
  entry of \<open>cftadj (cftfwd x)\<close> is not, and its last entry is not 0: no constant maps one
  image to the other.
\<close>

theorem sym_composite_not_proportional:
  "purify_measurement_cftfwd D_example [0, 0, 0, 1] = Inr [complex_of_real (kernel_sum\<^sup>2 / 4)] \<and>
   purify_measurement_cftadj D_adj_example [complex_of_real (kernel_sum\<^sup>2 / 4)] =
     Inr [- \<i> * complex_of_real (kernel_alt\<^sup>2 * kernel_sum\<^sup>2 / 16),
          complex_of_real (kernel_sum ^ 3 * kernel_alt / 16),
          - \<i> * complex_of_real (kernel_sum ^ 3 * kernel_alt / 16),
          complex_of_real (kernel_sum ^ 4 / 16)] \<and>
   purify_measurement_symcftfwd D_example [0, 0, 0, 1] =
     Inr [complex_of_real (kernel_sum\<^sup>2 / 4), complex_of_real (kernel_sum\<^sup>2 / 4)] \<and>
   purify_measurement_symcftadj D_adj_example
       [complex_of_real (kernel_sum\<^sup>2 / 4), complex_of_real (kernel_sum\<^sup>2 / 4)] =
     Inr [0, complex_of_real (kernel_sum ^ 3 * kernel_alt / 8), 0, complex_of_real (kernel_sum ^ 4 / 8)] \<and>
   - \<i> * complex_of_real (kernel_alt\<^sup>2 * kernel_sum\<^sup>2 / 16) \<noteq> 0 \<and>
   complex_of_real (kernel_sum ^ 4 / 8) \<noteq> 0"
proof -
  define Y where "Y = complex_of_real (kernel_sum\<^sup>2 / 4)"
  have par: "nmeas (param D_example) = 1" "nrows (mat D_adj_example) = 1"
    "nx1 (param D_adj_example) * ny1 (param D_adj_example) = 4"
    by (simp_all add: D_adj_example_def D_example_def P_example_def cft_matrix_def)
  have f: "purify_measurement_cftfwd D_example [0, 0, 0, 1] = Inr [Y]"
    unfolding Y_def by (rule cftfwd_example_units(4))
  have sf: "purify_measurement_symcftfwd D_example [0, 0, 0, 1] = Inr ([Y] @ map cnj [Y])"
    using f by (rule symcftfwd_eq) (simp add: par)
  have a: "purify_measurement_cftadj D_adj_example [Y] =
     Inr [- \<i> * complex_of_real (kernel_alt\<^sup>2 * kernel_sum\<^sup>2 / 16),
          complex_of_real (kernel_sum ^ 3 * kernel_alt / 16),
          - \<i> * complex_of_real (kernel_sum ^ 3 * kernel_alt / 16),
          complex_of_real (kernel_sum ^ 4 / 16)]"
    unfolding Y_def by (rule cftadj_example)
  have "purify_measurement_cftadj D_adj_example ([Y] @ [Y]) = purify_measurement_cftadj D_adj_example [Y]"
    by (rule cftadj_prefix) (simp add: par)
  then have "purify_measurement_symcftadj D_adj_example ([Y] @ [Y]) =
     Inr (map (\<lambda>z. complex_of_real (2 * Re z))
        [- \<i> * complex_of_real (kernel_alt\<^sup>2 * kernel_sum\<^sup>2 / 16),
          complex_of_real (kernel_sum ^ 3 * kernel_alt / 16),
          - \<i> * complex_of_real (kernel_sum ^ 3 * kernel_alt / 16),
          complex_of_real (kernel_sum ^ 4 / 16)])"
    using a by (intro symcftadj_eq) (simp_all add: par)
  then have sa: "purify_measurement_symcftadj D_adj_example [Y, Y] =
     Inr [0, complex_of_real (kernel_sum ^ 3 * kernel_alt / 8), 0, complex_of_real (kernel_sum ^ 4 / 8)]"
    by simp
  have nz: "- \<i> * complex_of_real (kernel_alt\<^sup>2 * kernel_sum\<^sup>2 / 16) \<noteq> 0"
    "complex_of_real (kernel_sum ^ 4 / 8) \<noteq> 0"
    using kernel_positive by simp_all
  have c: "cnj Y = Y" by (simp add: Y_def)
  show ?thesis
    using f a sf sa nz unfolding Y_def [symmetric] by (simp add: c)
qed

text \<open>
  Claim C4, amended.  For data that fit together (the adjoint with a plan of its own)
  and every image \<open>x\<close> of length \<open>nx1 * ny1\<close>, real or not, the composite
  \<open>symcftadj (symcftfwd x)\<close> is defined and its entry \<open>i\<close> is
  \<open>2 * Re (cftadj (cftfwd x))[i] + 0i\<close>: real, and twice the real part of the entry of the
  composite \<open>cftadj \<circ> cftfwd\<close>.
\<close>

theorem sym_composite_twice_real_part:
  assumes "cft_data_ok D" and "cft_data_ok (D\<lparr>plan := q\<rparr>)"
    and "int (length x) = nx1 (param D) * ny1 (param D)"
  shows "\<exists>y ys z out. purify_measurement_cftfwd D x = Inr y \<and>
           purify_measurement_cftadj (D\<lparr>plan := q\<rparr>) y = Inr z \<and>
           purify_measurement_symcftfwd D x = Inr ys \<and>
           purify_measurement_symcftadj (D\<lparr>plan := q\<rparr>) ys = Inr out \<and>
           int (length out) = nx1 (param D) * ny1 (param D) \<and> length z = length out \<and>
           (\<forall>i<length out. out ! i = Complex (2 * Re (z ! i)) 0)"
proof -
  obtain y where y: "purify_measurement_cftfwd D x = Inr y"
    and l: "length y = nat (nmeas (param D))"
    using cftfwd_total [OF assms(1,3)] by blast
  have "0 \<le> nrows (mat D)" and nr: "nrows (mat D) = nmeas (param D)"
    using assms(1) by (simp_all add: cft_data_ok_def sparsemat_ok_def)
  then have li: "int (length y) = nmeas (param D)" using l by simp
  have ys: "purify_measurement_symcftfwd D x = Inr (y @ map cnj y)"
    using y li by (rule symcftfwd_eq)
  obtain z where z: "purify_measurement_cftadj (D\<lparr>plan := q\<rparr>) y = Inr z"
    and lz: "int (length z) = nx1 (param D) * ny1 (param D)"
    using cftadj_total [OF assms(2)] li by auto
  have "purify_measurement_cftadj (D\<lparr>plan := q\<rparr>) (y @ map cnj y) = Inr z"
    using z li nr by (simp add: cftadj_prefix)
  then have "purify_measurement_symcftadj (D\<lparr>plan := q\<rparr>) (y @ map cnj y)
      = Inr (map (\<lambda>z. complex_of_real (2 * Re z)) z)"
    using lz by (intro symcftadj_eq) simp_all
  moreover have "\<forall>i<length z. map (\<lambda>z. complex_of_real (2 * Re z)) z ! i = Complex (2 * Re (z ! i)) 0"
    by (simp add: complex_eq_iff)
  ultimately show ?thesis using y z ys lz by auto
qed

theorem sym_composite_twice_real_part_witness:
  "cft_data_ok D_example \<and> cft_data_ok (D_example\<lparr>plan := \<lparr>plan_n0 = 4, plan_n1 = 4, plan_sign = 1\<rparr>\<rparr>) \<and>
   int (length [0, 0, 0, 1 :: complex]) = nx1 (param D_example) * ny1 (param D_example) \<and>
   (\<exists>y ys z out. purify_measurement_cftfwd D_example [0, 0, 0, 1] = Inr y \<and>
      purify_measurement_cftadj D_adj_example y = Inr z \<and>
      purify_measurement_symcftfwd D_example [0, 0, 0, 1] = Inr ys \<and>
      purify_measurement_symcftadj D_adj_example ys = Inr out \<and>
      int (length out) = 4 \<and> length z = length out \<and>
      (\<forall>i<length out. out ! i = Complex (2 * Re (z ! i)) 0))"
  using D_example_ok sym_composite_twice_real_part [of D_example "\<lparr>plan_n0 = 4, plan_n1 = 4, plan_sign = 1\<rparr>" "[0, 0, 0, 1]"]
  by (simp add: D_adj_example_def D_example_def P_example_def)



section \<open>The index conventions of the continuous operators\<close>

lemma nth_concat_uniform:
  assumes "\<And>r. r \<in> set rows \<Longrightarrow> length r = n" "i < length rows" "k < n"
  shows "concat rows ! (i * n + k) = rows ! i ! k"
  using assms
proof (induction rows arbitrary: i)
  case Nil
  then show ?case by simp
next
  case (Cons r rows)
  have lr: "length r = n" using Cons.prems(1) by simp
  show ?case
  proof (cases i)
    case 0
    then show ?thesis using Cons.prems(3) lr by (simp add: nth_append)
  next
    case (Suc i')
    have "concat rows ! (i' * n + k) = rows ! i' ! k"
      using Cons.prems Suc by (intro Cons.IH) simp_all
    then show ?thesis using Suc lr by (simp add: nth_append)
  qed
qed

lemma nth_support:
  assumes "a < 5"
  shows "[c - nmask..c + nmask] ! a = c - nmask + int a"
  using assms by (intro nth_upto) (simp add: nmask_def)

lemma row_entries_nth:
  assumes a: "a < 5" and b: "b < 5"
  shows "snd (row_entries nx2 ny2 ufrc vfrc ! (b * 5 + a)) =
           wrap_cell ny2 (nearest_cell vfrc - nmask + int b) * nx2 +
           wrap_cell nx2 (nearest_cell ufrc - nmask + int a)"
proof -
  define ius where "ius = [nearest_cell ufrc - nmask..nearest_cell ufrc + nmask]"
  define ivs where "ivs = [nearest_cell vfrc - nmask..nearest_cell vfrc + nmask]"
  define e where "e iv iu = (convfn_at (nat (table_index iv vfrc)) * convfn_at (nat (table_index iu ufrc)),
          wrap_cell ny2 iv * nx2 + wrap_cell nx2 iu)" for iv iu
  have l: "length ius = 5" "length ivs = 5" by (simp_all add: ius_def ivs_def nmask_def)
  have "row_entries nx2 ny2 ufrc vfrc ! (b * 5 + a) = map (\<lambda>iv. map (e iv) ius) ivs ! b ! a"
    unfolding row_entries_def ius_def [symmetric] ivs_def [symmetric] e_def [symmetric]
    using a b l by (intro nth_concat_uniform) auto
  also have "\<dots> = e (ivs ! b) (ius ! a)" using a b l by simp
  finally show ?thesis
    using nth_support [OF a] nth_support [OF b] by (simp add: e_def ius_def ivs_def)
qed

lemma cft_matrix_colind_nth:
  assumes i: "i < nat (nmeas P)" and a: "a < 5" and b: "b < 5"
  shows "colind (cft_matrix P u v) ! (i * 25 + (b * 5 + a)) =
           wrap_cell (ofy P * ny1 P)
             (nearest_cell (scaled_coord (v ! i) (vmax P) (ofy P * ny1 P)) - nmask + int b) *
             (ofx P * nx1 P) +
           wrap_cell (ofx P * nx1 P)
             (nearest_cell (scaled_coord (u ! i) (umax P) (ofx P * nx1 P)) - nmask + int a)"
proof -
  have k: "b * 5 + a < 25" using a b by simp
  have li: "i < length (measurement_rows P u v)" using i by (simp add: measurement_rows_def)
  have "i * 25 + (b * 5 + a) < 25 * length (measurement_rows P u v)"
    using li k by simp
  then have lt: "i * 25 + (b * 5 + a) < length (concat (measurement_rows P u v))"
    using length_measurement_rows [of P u v] by (simp add: measurement_rows_def)
  have "concat (measurement_rows P u v) ! (i * 25 + (b * 5 + a)) =
          measurement_rows P u v ! i ! (b * 5 + a)"
    using li k by (intro nth_concat_uniform) (auto simp add: measurement_rows_def length_row_entries)
  moreover have "[0..nmeas P - 1] ! i = int i"
    using i by (simp add: upto_conv_upt)
  ultimately have "concat (measurement_rows P u v) ! (i * 25 + (b * 5 + a)) =
      row_entries (ofx P * nx1 P) (ofy P * ny1 P)
        (scaled_coord (u ! i) (umax P) (ofx P * nx1 P))
        (scaled_coord (v ! i) (vmax P) (ofy P * ny1 P)) ! (b * 5 + a)"
    using i by (simp add: measurement_rows_def)
  then show ?thesis
    using lt row_entries_nth [OF a b] by (simp add: cft_matrix_def)
qed

text \<open>
  Claim C2.  The claim expects the column index that \<^verbatim>\<open>purify_measurement_init_cft\<close>
  stores for the wrapped cell \<open>(iu2, iv2)\<close> to be \<open>iu2 * ny2 + iv2\<close>, the linearisation of
  \<^verbatim>\<open>purify_image_ixiy2ind\<close>.  For the measurement at \<open>u = 1\<close>, \<open>v = 0\<close> on the 4-by-4 grid
  the central entry of the row (position 12, cell \<open>(iu2, iv2) = (1, 0)\<close>) holds the column
  index \<open>iv2 * nx2 + iu2 = 1\<close>, while the image linearisation of \<open>(1, 0)\<close> is 4.
\<close>

theorem init_cft_colind_not_image_linearisation:
  "purify_measurement_init_cft P_example [1] [0] = Inr (cft_matrix P_example [1] [0], replicate 4 1) \<and>
   colind (cft_matrix P_example [1] [0]) ! 12 = 1 \<and>
   cft_colind 4 1 0 = Inr 1 \<and>
   purify_image_ixiy2ind 1 0 \<lparr>fov_x = 0, fov_y = 0, nx = 4, ny = 4, pix = replicate 16 0\<rparr> = Inr 4"
proof -
  have i: "purify_measurement_init_cft P_example [1] [0] =
      Inr (cft_matrix P_example [1] [0], replicate 4 1)"
    using init_cft_ok [of P_example "[1]" "[0]"] P_example_facts by (simp add: P_example_def)
  have "colind (cft_matrix P_example [1] [0]) ! (0 * 25 + (2 * 5 + 2)) = 1"
    by (subst cft_matrix_colind_nth)
      (simp_all add: P_example_def scaled_coord_def nearest_cell_def nmask_def wrap_cell_def)
  then have c: "colind (cft_matrix P_example [1] [0]) ! 12 = 1" by simp
  have "cft_colind 4 1 0 = Inr 1"
    by (simp add: cft_colind_def int_chk_def c_int_ok_def INT_MIN_def INT_MAX_def)
  then show ?thesis
    using i c
    by (simp add: purify_image_ixiy2ind_def int_chk_def c_int_ok_def INT_MIN_def INT_MAX_def)
qed

text \<open>
  Claim C2, amended.  \<^verbatim>\<open>purify_image_ixiy2ind\<close> linearises \<open>(ix, iy)\<close> as \<open>ix * ny + iy\<close>;
  the continuous operators use the transposed convention, second coordinate times first
  dimension plus first coordinate.  For coordinates in range, the entry of the matrix of
  \<^verbatim>\<open>purify_measurement_init_cft\<close> for measurement \<open>i\<close> and the cell \<open>(iu, iv)\<close> of its
  support, \<open>iu = idu - nmask + a\<close>, \<open>iv = idv - nmask + b\<close>, stands at position
  \<open>i * 25 + b * 5 + a\<close> and holds the column index \<open>iv2 * nx2 + iu2\<close> of the wrapped cell;
  and the zero padding of \<^verbatim>\<open>purify_measurement_cftfwd\<close> places the pixel \<open>(i, j)\<close>, read at
  \<open>j * nx1 + i\<close>, at \<open>(j + ny2 / 4) * nx2 + (i + nx2 / 4)\<close> of the padded array.
\<close>

theorem cft_index_convention:
  assumes "coords_in_range P u v" and "cparam_sizes_ok P"
    and "4 \<le> ofx P * nx1 P" and "4 \<le> ofy P * ny1 P"
    and "cft_window_ok P" and "int (length x) = nx1 P * ny1 P"
  shows "\<exists>M dec t. purify_measurement_init_cft P u v = Inr (M, dec) \<and>
           cft_zero_pad P dec x = Inr t \<and>
           (\<forall>i a b. i < nat (nmeas P) \<and> a < 5 \<and> b < 5 \<longrightarrow>
              colind M ! (i * 25 + (b * 5 + a)) =
                wrap_cell (ofy P * ny1 P)
                  (nearest_cell (scaled_coord (v ! i) (vmax P) (ofy P * ny1 P)) - nmask + int b) *
                  (ofx P * nx1 P) +
                wrap_cell (ofx P * nx1 P)
                  (nearest_cell (scaled_coord (u ! i) (umax P) (ofx P * nx1 P)) - nmask + int a)) \<and>
           (\<forall>i j. i < nat (nx1 P) \<and> j < nat (ny1 P) \<longrightarrow>
              t ! nat ((int j + (ofy P * ny1 P) div 4) * (ofx P * nx1 P) + int i + (ofx P * nx1 P) div 4) =
                x ! (j * nat (nx1 P) + i) * complex_of_real (cft_scale P) *
                complex_of_real (dec ! (j * nat (nx1 P) + i)))"
proof -
  define dec where "dec = replicate (nat (nx1 P * ny1 P)) (1 :: real)"
  have init: "purify_measurement_init_cft P u v = Inr (cft_matrix P u v, dec)"
    unfolding dec_def using assms(3,4,2,1) by (rule init_cft_ok)
  have pos: "0 < nx1 P" "0 < ny1 P" using assms(5) by (simp_all add: cft_window_ok_def)
  have pad: "cft_zero_pad P dec x = Inr (padded_image P dec x)"
    using assms(5,6) pos by (intro cft_zero_pad_ok) (simp_all add: dec_def)
  have px: "padded_image P dec x !
        nat ((int j + (ofy P * ny1 P) div 4) * (ofx P * nx1 P) + int i + (ofx P * nx1 P) div 4) =
      x ! (j * nat (nx1 P) + i) * complex_of_real (cft_scale P) *
      complex_of_real (dec ! (j * nat (nx1 P) + i))"
    if "i < nat (nx1 P)" "j < nat (ny1 P)" for i j
  proof -
    have "j * nat (nx1 P) + i < (j + 1) * nat (nx1 P)" using that(1) by simp
    also have "\<dots> \<le> nat (ny1 P) * nat (nx1 P)" using that(2) by (intro mult_le_mono1) simp
    finally have m: "j * nat (nx1 P) + i < nat (ny1 P) * nat (nx1 P)" .
    show ?thesis
      using padded_image_window [OF assms(5) m, of dec x] window_index_row [OF pos(1) that(1), of j]
      by simp
  qed
  show ?thesis
    using init pad px cft_matrix_colind_nth [of _ P _ _ u v] by blast
qed

theorem cft_index_convention_witness:
  "coords_in_range P_example [1] [0] \<and> cparam_sizes_ok P_example \<and>
   4 \<le> ofx P_example * nx1 P_example \<and> 4 \<le> ofy P_example * ny1 P_example \<and>
   cft_window_ok P_example \<and> int (length [1, 2, 3, 4 :: complex]) = nx1 P_example * ny1 P_example \<and>
   (\<exists>M dec t. purify_measurement_init_cft P_example [1] [0] = Inr (M, dec) \<and>
      cft_zero_pad P_example dec [1, 2, 3, 4] = Inr t \<and>
      colind M ! 12 = 1 \<and>
      t ! 10 = 4 * complex_of_real (cft_scale P_example) * complex_of_real (dec ! 3))"
proof -
  obtain M dec t where r: "purify_measurement_init_cft P_example [1] [0] = Inr (M, dec)"
      "cft_zero_pad P_example dec [1, 2, 3, 4] = Inr t"
    and c: "\<forall>i a b. i < nat (nmeas P_example) \<and> a < 5 \<and> b < 5 \<longrightarrow>
              colind M ! (i * 25 + (b * 5 + a)) =
                wrap_cell (ofy P_example * ny1 P_example)
                  (nearest_cell (scaled_coord ([0] ! i) (vmax P_example) (ofy P_example * ny1 P_example)) - nmask + int b) *
                  (ofx P_example * nx1 P_example) +
                wrap_cell (ofx P_example * nx1 P_example)
                  (nearest_cell (scaled_coord ([1] ! i) (umax P_example) (ofx P_example * nx1 P_example)) - nmask + int a)"
    and p: "\<forall>i j. i < nat (nx1 P_example) \<and> j < nat (ny1 P_example) \<longrightarrow>
              t ! nat ((int j + (ofy P_example * ny1 P_example) div 4) * (ofx P_example * nx1 P_example) + int i + (ofx P_example * nx1 P_example) div 4) =
                [1, 2, 3, 4] ! (j * nat (nx1 P_example) + i) * complex_of_real (cft_scale P_example) *
                complex_of_real (dec ! (j * nat (nx1 P_example) + i))"
    using cft_index_convention [of P_example "[1]" "[0]" "[1, 2, 3, 4]"] P_example_facts
    by (auto simp add: P_example_def)
  have "colind M ! (0 * 25 + (2 * 5 + 2)) = 1"
    using c [rule_format, of 0 2 2]
    by (simp add: P_example_def scaled_coord_def nearest_cell_def nmask_def wrap_cell_def)
  moreover have "t ! 10 = 4 * complex_of_real (cft_scale P_example) * complex_of_real (dec ! 3)"
    using p [rule_format, of 1 1] by (simp add: P_example_def)
  ultimately show ?thesis
    using r P_example_facts by (auto simp add: P_example_def)
qed

section \<open>The power method\<close>




lemma dznrm2_zero:
  assumes "cblas_dznrm2 n xs = Some 0" "z \<in> set (take n xs)"
  shows "z = Some 0"
proof -
  have fin: "\<forall>z\<in>set (take n xs). z \<noteq> None"
    and s: "sqrt (\<Sum>z\<leftarrow>take n xs. (cmod (the z))\<^sup>2) = 0"
    using assms(1) by (simp_all add: cblas_dznrm2_def list_all_iff split: if_splits)
  have "(\<Sum>z\<leftarrow>take n xs. (cmod (the z))\<^sup>2) = 0" using s by simp
  then have "\<forall>z\<in>set (take n xs). (cmod (the z))\<^sup>2 = 0"
    by (subst (asm) sum_list_nonneg_eq_0_iff) auto
  then have "the z = 0" using assms(2) by simp
  moreover have "z \<noteq> None" using fin assms(2) by blast
  ultimately show ?thesis by auto
qed







lemma l2_norm_unit_vector:
  assumes "l2_norm v \<noteq> 0"
  shows "l2_norm (unit_vector v) = 1"
proof -
  define c where "c = l2_norm v"
  have "0 \<le> (\<Sum>z\<leftarrow>v. (cmod z)\<^sup>2)" by (rule sum_list_nonneg) auto
  then have c2: "c\<^sup>2 = (\<Sum>z\<leftarrow>v. (cmod z)\<^sup>2)"
    unfolding c_def l2_norm_def by simp
  have "(\<Sum>z\<leftarrow>map (\<lambda>z. z / complex_of_real c) v. (cmod z)\<^sup>2) = (\<Sum>z\<leftarrow>v. (cmod z)\<^sup>2 / c\<^sup>2)"
    by (simp add: comp_def norm_divide power_divide)
  also have "\<dots> = (\<Sum>z\<leftarrow>v. (cmod z)\<^sup>2) / c\<^sup>2"
    by (induction v) (simp_all add: add_divide_distrib)
  also have "\<dots> = 1" using assms c2 [symmetric] by (simp add: c_def)
  finally show ?thesis by (simp add: l2_norm_def unit_vector_def c_def)
qed



lemma length_pow_iterate:
  assumes "\<forall>v. length (f2 (f1 v)) = n" "length x0 = n"
  shows "length (pow_iterate f1 f2 x0 k) = n"
  using assms by (cases k) (simp_all add: unit_vector_def)










section \<open>Runs of the power method\<close>

















section \<open>The transform of a real image is Hermitian\<close>





section \<open>The completion of the half plane\<close>
















end
